theory Spec2Isabelle
  imports Main "HOL-Library.Sublist" "HOL-Library.AList"
begin

section \<open>The file storage of microcore (\<open>src/microcore/file_storage.py\<close>)\<close>

text \<open>
  The class \<open>Storage\<close> is a set of file operations below a configured root directory.
  Its methods are embedded as HOL functions over an explicit file system, an explicit
  configuration and the few library functions they call. The platform is POSIX
  (\<open>/\<close> separates, \<open>os.linesep\<close> is a line feed), there are no symbolic links and
  no permission errors, and a leading \<open>//\<close> is read like \<open>/\<close>.
\<close>

subsection \<open>Python strings\<close>

text \<open>\<open>s.split(c)\<close> for a separator of one character.\<close>

fun split_on :: "char \<Rightarrow> string \<Rightarrow> string list" where
  "split_on c [] = [[]]"
| "split_on c (x # xs) =
     (if x = c then [] # split_on c xs
      else (case split_on c xs of [] \<Rightarrow> [[x]] | w # ws \<Rightarrow> (x # w) # ws))"

text \<open>\<open>sep.join(ws)\<close>.\<close>

fun join_with :: "string \<Rightarrow> string list \<Rightarrow> string" where
  "join_with sep [] = []"
| "join_with sep [w] = w"
| "join_with sep (w # v # ws) = w @ sep @ join_with sep (v # ws)"

text \<open>\<open>s.rfind(c)\<close>: the index of the last occurrence, \<open>None\<close> for Python's -1.\<close>

definition rfind :: "char \<Rightarrow> string \<Rightarrow> nat option" where
  "rfind c s =
     (let n = length (takeWhile (\<lambda>x. x \<noteq> c) (rev s))
      in if n = length s then None else Some (length s - n - 1))"

definition startswith :: "string \<Rightarrow> string \<Rightarrow> bool" where
  "startswith s p = (take (length p) s = p)"

text \<open>\<open>str(n)\<close> for a natural number.\<close>

definition digit_char :: "nat \<Rightarrow> char" where
  "digit_char d = ''0123456789'' ! d"

fun str_nat :: "nat \<Rightarrow> string" where
  "str_nat n = (if n < 10 then [digit_char n] else str_nat (n div 10) @ [digit_char (n mod 10)])"

declare str_nat.simps [simp del]

text \<open>An f-string field \<open>{x}\<close> where \<open>x\<close> is a string or \<open>None\<close>.\<close>

definition fmt :: "string option \<Rightarrow> string" where
  "fmt x = (case x of None \<Rightarrow> ''None'' | Some s \<Rightarrow> s)"

text \<open>\<open>a or b\<close> on optional strings: \<open>None\<close> and the empty string are falsy.\<close>

definition py_or :: "string option \<Rightarrow> string option \<Rightarrow> string option" where
  "py_or a b = (case a of None \<Rightarrow> b | Some s \<Rightarrow> if s = [] then b else Some s)"

subsection \<open>pathlib's pure paths\<close>

record pure_path =
  is_absolute :: bool
  parts :: "string list"

text \<open>\<open>Path(s)\<close>: empty components and \<open>.\<close> are dropped, \<open>..\<close> is kept.\<close>

definition Path :: "string \<Rightarrow> pure_path" where
  "Path s = \<lparr> is_absolute = startswith s ''/'',
             parts = filter (\<lambda>w. w \<noteq> [] \<and> w \<noteq> ''.'') (split_on CHR ''/'' s) \<rparr>"

text \<open>\<open>p / q\<close>: an absolute right operand replaces the left one.\<close>

definition joinpath :: "pure_path \<Rightarrow> pure_path \<Rightarrow> pure_path" where
  "joinpath p q =
     (if is_absolute q then q
      else \<lparr> is_absolute = is_absolute p, parts = parts p @ parts q \<rparr>)"

text \<open>\<open>str(p)\<close>, which is also \<open>p.as_posix()\<close> here.\<close>

definition to_str :: "pure_path \<Rightarrow> string" where
  "to_str p =
     (if is_absolute p then CHR ''/'' # join_with ''/'' (parts p)
      else if parts p = [] then ''.'' else join_with ''/'' (parts p))"

definition path_name :: "pure_path \<Rightarrow> string" where
  "path_name p = (if parts p = [] then [] else last (parts p))"

definition suffix_of :: "pure_path \<Rightarrow> string" where
  "suffix_of p =
     (let name = path_name p
      in case rfind CHR ''.'' name of
           None \<Rightarrow> []
         | Some i \<Rightarrow> if 0 < i \<and> i < length name - 1 then drop i name else [])"

datatype error =
    ValueError | TypeError | LookupError
  | FileNotFoundError | NotADirectoryError | IsADirectoryError | FileExistsError
  | SameFileError | UnicodeError | JSONDecodeError

text \<open>\<open>p.with_suffix(sfx)\<close>, which raises on a path with an empty name.\<close>

definition with_suffix :: "pure_path \<Rightarrow> string \<Rightarrow> error + pure_path" where
  "with_suffix p sfx =
     (if CHR ''/'' \<in> set sfx then Inl ValueError
      else if (sfx \<noteq> [] \<and> \<not> startswith sfx ''.'') \<or> sfx = ''.'' then Inl ValueError
      else let name = path_name p
      in if name = [] then Inl ValueError
         else let old_suffix = suffix_of p;
                  name' = (if old_suffix = [] then name @ sfx
                           else take (length name - length old_suffix) name @ sfx)
              in Inr (p\<lparr> parts := butlast (parts p) @ [name'] \<rparr>))"

definition parent :: "pure_path \<Rightarrow> pure_path" where
  "parent p = p\<lparr> parts := butlast (parts p) \<rparr>"

subsection \<open>The file system\<close>

text \<open>
  A location is the list of names from the root directory down. The file system is an
  association list from locations to nodes: the order of the list is the order in which a
  directory scan meets the entries. The root directory always exists.
\<close>

type_synonym location = "string list"

datatype node = File string | Dir

type_synonym filesystem = "(location \<times> node) list"

definition node_at :: "filesystem \<Rightarrow> location \<Rightarrow> node option" where
  "node_at fs k = (if k = [] then Some Dir else map_of fs k)"

definition is_file :: "filesystem \<Rightarrow> location \<Rightarrow> bool" where
  "is_file fs k = (case node_at fs k of Some (File b) \<Rightarrow> True | _ \<Rightarrow> False)"

definition is_dir :: "filesystem \<Rightarrow> location \<Rightarrow> bool" where
  "is_dir fs k = (node_at fs k = Some Dir)"

definition path_exists :: "filesystem \<Rightarrow> location \<Rightarrow> bool" where
  "path_exists fs k = (node_at fs k \<noteq> None)"

text \<open>
  Every node below the root sits in a directory. The operations never need this to run;
  some theorems assume it of the file system they start from.
\<close>

definition well_formed :: "filesystem \<Rightarrow> bool" where
  "well_formed fs = (\<forall>k. k \<noteq> [] \<longrightarrow> node_at fs k \<noteq> None \<longrightarrow> is_dir fs (butlast k))"

text \<open>
  How a path names a location: a relative path starts at the working directory, and
  \<open>..\<close> steps to the parent (the parent of the root is the root). This is also
  \<open>Path.resolve()\<close>, as there are no symbolic links. A system call walks the
  path instead, and fails at a \<open>..\<close> that follows a missing directory or a regular
  file; it is given this location all the same, which is the one it reaches on a path
  without \<open>..\<close>. The theorems on \<open>read\<close>, \<open>write\<close> and \<open>copy\<close> that say which
  node a call reaches are stated for such paths (\<open>plain_path\<close> below).
\<close>

fun normpath :: "location \<Rightarrow> string list \<Rightarrow> location" where
  "normpath acc [] = acc"
| "normpath acc (c # cs) =
     (if c = ''..'' then normpath (butlast acc) cs else normpath (acc @ [c]) cs)"

definition resolve :: "location \<Rightarrow> pure_path \<Rightarrow> location" where
  "resolve wd p = normpath (if is_absolute p then [] else wd) (parts p)"

text \<open>\<open>p.parents\<close> of a resolved path, the nearest first.\<close>

definition parents :: "location \<Rightarrow> location list" where
  "parents k = rev (butlast (prefixes k))"

text \<open>\<open>shutil.rmtree\<close>: the directory and everything below it goes.\<close>

definition rmtree :: "filesystem \<Rightarrow> location \<Rightarrow> filesystem" where
  "rmtree fs k = filter (\<lambda>(k', n). \<not> prefix k k') fs"

subsection \<open>Configuration and environment\<close>

text \<open>
  \<open>config()\<close> is read on every call; the three values the storage uses are a record.
  The environment adds the working directory of the process and the library functions
  whose results the storage only passes on: the codecs, \<open>chardet.detect\<close>,
  \<open>fnmatch.fnmatch\<close> and \<open>json.loads\<close>.
\<close>

record config =
  STORAGE_PATH :: string
  STORAGE_DEFAULT_FILE_EXT :: "string option"
  DEFAULT_ENCODING :: "string option"

datatype json =
    JNone | JBool bool | JInt int | JStr string | JList "json list"
  | JDict "(string \<times> json) list"

record env =
  config :: config
  cwd :: location
  str_encode :: "string option \<Rightarrow> string \<Rightarrow> error + string"
  bytes_decode :: "string \<Rightarrow> string \<Rightarrow> error + string"
  chardet_detect :: "string \<Rightarrow> string option"
  fnmatch :: "string \<Rightarrow> string \<Rightarrow> bool"
  json_loads :: "string \<Rightarrow> error + json"

text \<open>The location a path object names in this environment.\<close>

definition locate :: "env \<Rightarrow> pure_path \<Rightarrow> location" where
  "locate e p = resolve (cwd e) p"

subsection \<open>Storage: properties\<close>

definition path :: "env \<Rightarrow> pure_path" where
  "path e = Path (STORAGE_PATH (config e))"

definition default_ext :: "env \<Rightarrow> string option" where
  "default_ext e =
     (case STORAGE_DEFAULT_FILE_EXT (config e) of
        None \<Rightarrow> None
      | Some ext \<Rightarrow> if ext \<noteq> [] \<and> \<not> startswith ext ''.'' then Some (''.'' @ ext) else Some ext)"

definition default_encoding :: "env \<Rightarrow> string option" where
  "default_encoding e = DEFAULT_ENCODING (config e)"

text \<open>
  The location that \<open>self.path / name\<close> names, which is where \<open>exists\<close>,
  \<open>is_file\<close>, \<open>mkdir\<close> and \<open>write_text\<close> look when the path holds no
  \<open>..\<close>.
\<close>

definition storage_at :: "env \<Rightarrow> string \<Rightarrow> location" where
  "storage_at e name = locate e (joinpath (path e) (Path name))"

definition exists :: "env \<Rightarrow> filesystem \<Rightarrow> string \<Rightarrow> bool" where
  "exists e fs name = path_exists fs (storage_at e name)"

definition abs_path :: "env \<Rightarrow> string \<Rightarrow> pure_path" where
  "abs_path e name = (if startswith name ''/'' then Path name else joinpath (path e) (Path name))"

subsection \<open>Storage.clean\<close>

text \<open>A call returns its outcome, an error or a value, and the file system it leaves.\<close>

type_synonym 'a outcome = "(error + 'a) \<times> filesystem"

definition clean :: "env \<Rightarrow> filesystem \<Rightarrow> string \<Rightarrow> unit outcome" where
  "clean e fs p =
     (let full_path = locate e (joinpath (path e) (Path p))
      in if locate e (path e) \<notin> set (parents full_path) then (Inl ValueError, fs)
         else if path_exists fs full_path \<and> is_dir fs full_path
              then (Inr (), rmtree fs full_path)
              else (Inr (), fs))"

subsection \<open>System calls\<close>

text \<open>
  The error of naming a node that is not there: \<open>ENOTDIR\<close> when the way to it leads
  through a regular file, \<open>ENOENT\<close> otherwise.
\<close>

definition missing_error :: "filesystem \<Rightarrow> location \<Rightarrow> error" where
  "missing_error fs k =
     (if list_ex (is_file fs) (parents k) then NotADirectoryError else FileNotFoundError)"

text \<open>Opening for reading and taking all bytes.\<close>

definition read_bytes :: "filesystem \<Rightarrow> location \<Rightarrow> error + string" where
  "read_bytes fs k =
     (case node_at fs k of
        Some (File b) \<Rightarrow> Inr b
      | Some Dir \<Rightarrow> Inl IsADirectoryError
      | None \<Rightarrow> Inl (missing_error fs k))"

text \<open>Opening for writing: the file is created, or emptied when it is there.\<close>

definition create_file :: "filesystem \<Rightarrow> location \<Rightarrow> error + filesystem" where
  "create_file fs k =
     (if is_dir fs k then Inl IsADirectoryError
      else if \<not> is_dir fs (butlast k) then Inl (missing_error fs k)
      else Inr (AList.update k (File []) fs))"

text \<open>
  \<open>Path.write_text(content, encoding)\<close>: the file is opened first, so a content that
  does not encode leaves an empty file behind.
\<close>

definition write_text ::
  "env \<Rightarrow> filesystem \<Rightarrow> location \<Rightarrow> string \<Rightarrow> string option \<Rightarrow> unit outcome" where
  "write_text e fs k content encoding =
     (case create_file fs k of
        Inl er \<Rightarrow> (Inl er, fs)
      | Inr fs1 \<Rightarrow>
          (case str_encode e encoding content of
             Inl er \<Rightarrow> (Inl er, fs1)
           | Inr b \<Rightarrow> (Inr (), AList.update k (File b) fs1)))"

text \<open>
  \<open>Path.mkdir(parents=True, exist_ok=True)\<close>: nothing happens to a directory that is
  there; a regular file at the path or above it is an error; otherwise the missing
  directories are created, the outermost first.
\<close>

definition mkdir_p :: "filesystem \<Rightarrow> location \<Rightarrow> unit outcome" where
  "mkdir_p fs k =
     (if is_dir fs k then (Inr (), fs)
      else if is_file fs k then (Inl FileExistsError, fs)
      else if list_ex (is_file fs) (parents k) then (Inl NotADirectoryError, fs)
      else (Inr (), fs @ map (\<lambda>q. (q, Dir)) (filter (\<lambda>q. node_at fs q = None) (prefixes k))))"

text \<open>
  \<open>os.rename\<close> of a regular file, which is what its one call site passes: the target
  is replaced unless it is a directory.
\<close>

definition rename :: "filesystem \<Rightarrow> location \<Rightarrow> location \<Rightarrow> unit outcome" where
  "rename fs s d =
     (case node_at fs s of
        Some (File b) \<Rightarrow>
          if s = d then (Inr (), fs)
          else if is_dir fs d then (Inl IsADirectoryError, fs)
          else if \<not> is_dir fs (butlast d) then (Inl (missing_error fs d), fs)
          else (Inr (), AList.update d (File b) (AList.delete s fs))
      | _ \<Rightarrow> (Inl (missing_error fs s), fs))"

text \<open>
  \<open>shutil.copy2(s, d)\<close>: a target that is a directory receives the file under the
  source's name. Only the content is modelled, not the metadata.
\<close>

definition copy2 :: "filesystem \<Rightarrow> location \<Rightarrow> location \<Rightarrow> unit outcome" where
  "copy2 fs s d =
     (let d' = (if is_dir fs d then d @ [if s = [] then [] else last s] else d)
      in if s = d' \<and> path_exists fs s then (Inl SameFileError, fs)
         else case read_bytes fs s of
                Inl er \<Rightarrow> (Inl er, fs)
              | Inr b \<Rightarrow>
                  (case create_file fs d' of
                     Inl er \<Rightarrow> (Inl er, fs)
                   | Inr fs1 \<Rightarrow> (Inr (), AList.update d' (File b) fs1)))"

text \<open>
  \<open>p.rglob('*')\<close>: every entry below \<open>p\<close>, each given by its location relative to
  \<open>p\<close> (which is what the caller takes from it with \<open>relative_to\<close>). The scan is
  taken when the loop starts; the library scans while the loop runs, which meets the same
  entries as long as the loop writes outside \<open>p\<close>.
\<close>

definition rglob :: "filesystem \<Rightarrow> location \<Rightarrow> location list" where
  "rglob fs k =
     remdups (map (\<lambda>(q, n). drop (length k) q) (filter (\<lambda>(q, n). strict_prefix k q) fs))"

subsection \<open>Storage.read and Storage.read_json\<close>

text \<open>
  Reading a text file with \<open>open(name, "r", encoding=...)\<close> translates every line
  ending to a line feed.
\<close>

fun universal_newlines :: "string \<Rightarrow> string" where
  "universal_newlines [] = []"
| "universal_newlines [c] = [if c = CHR 0x0D then CHR 0x0A else c]"
| "universal_newlines (c # d # cs) =
     (if c = CHR 0x0D \<and> d = CHR 0x0A then CHR 0x0A # universal_newlines cs
      else if c = CHR 0x0D then CHR 0x0A # universal_newlines (d # cs)
      else c # universal_newlines (d # cs))"

text \<open>
  Lines 44 and 46 to 55 of \<open>read\<close>: the string that is opened. It is opened at the
  location of the path it spells, which is right of a string that does not end in a slash
  or in \<open>/.\<close> (such an ending asks for a directory); see \<open>plain_name\<close> below.
\<close>

definition read_target :: "env \<Rightarrow> filesystem \<Rightarrow> string \<Rightarrow> string" where
  "read_target e fs name =
     (if \<not> startswith name ''/'' \<and> \<not> startswith name ''./'' then
        (if CHR ''.'' \<in> set name then
           let ps = split_on CHR ''.'' name;
               name' = join_with ''.'' (butlast ps);
               ext = ''.'' @ last ps
           in to_str (path e) @ ''/'' @ name' @ ext
         else
           let ext = default_ext e;
               ext' = (if \<not> exists e fs (name @ fmt ext) then [] else fmt ext)
           in to_str (path e) @ ''/'' @ name @ ext')
      else name)"

definition read :: "env \<Rightarrow> filesystem \<Rightarrow> string \<Rightarrow> string option \<Rightarrow> error + string" where
  "read e fs name encoding =
     (let encoding = py_or encoding (default_encoding e);
          name = read_target e fs name
      in case encoding of
           None \<Rightarrow>
             (case read_bytes fs (locate e (Path name)) of
                Inl er \<Rightarrow> Inl er
              | Inr rawdata \<Rightarrow>
                  (case chardet_detect e rawdata of
                     None \<Rightarrow> Inl TypeError
                   | Some enc \<Rightarrow> bytes_decode e enc rawdata))
         | Some enc \<Rightarrow>
             (case read_bytes fs (locate e (Path name)) of
                Inl er \<Rightarrow> Inl er
              | Inr rawdata \<Rightarrow>
                  (case bytes_decode e enc rawdata of
                     Inl er \<Rightarrow> Inl er
                   | Inr s \<Rightarrow> Inr (universal_newlines s))))"

text \<open>
  The argument \<open>default\<close> is a Python value; \<open>JNone\<close> is \<open>None\<close>, also the value of
  an omitted one.
\<close>

definition read_json :: "env \<Rightarrow> filesystem \<Rightarrow> string \<Rightarrow> json \<Rightarrow> error + json" where
  "read_json e fs name dflt =
     (case (case read e fs name None of Inl er \<Rightarrow> Inl er | Inr s \<Rightarrow> json_loads e s) of
        Inr v \<Rightarrow> Inr v
      | Inl er \<Rightarrow>
          if er = FileNotFoundError then (if dflt \<noteq> JNone then Inr dflt else Inl er)
          else Inl er)"

subsection \<open>Storage.write\<close>

text \<open>The candidate \<open>f"{base_name}_{counter}{ext}"\<close>.\<close>

definition numbered :: "pure_path \<Rightarrow> nat \<Rightarrow> string option \<Rightarrow> string" where
  "numbered base_name counter ext = to_str base_name @ ''_'' @ str_nat counter @ fmt ext"

text \<open>
  The \<open>while True\<close> loop of lines 112 to 116: the first counter from the given one whose
  candidate is not a regular file. It has no bound of its own, so not returning is the
  value \<open>None\<close>.
\<close>

partial_function (option) first_free ::
  "env \<Rightarrow> filesystem \<Rightarrow> pure_path \<Rightarrow> string option \<Rightarrow> nat \<Rightarrow> nat option" where
  "first_free e fs base_name ext counter =
     (if \<not> is_file fs (storage_at e (numbered base_name counter ext))
      then Some counter
      else first_free e fs base_name ext (counter + 1))"

declare first_free.simps [code]

text \<open>Lines 121 to 123: the parent directories, the content, the name that is returned.\<close>

definition write_file ::
  "env \<Rightarrow> filesystem \<Rightarrow> string \<Rightarrow> string \<Rightarrow> string option \<Rightarrow> string outcome" where
  "write_file e fs file_name content encoding =
     (case mkdir_p fs (locate e (parent (joinpath (path e) (Path file_name)))) of
        (Inl er, fs1) \<Rightarrow> (Inl er, fs1)
      | (Inr u, fs1) \<Rightarrow>
          (case write_text e fs1 (storage_at e file_name) content encoding of
             (Inl er, fs2) \<Rightarrow> (Inl er, fs2)
           | (Inr u', fs2) \<Rightarrow> (Inr file_name, fs2)))"

text \<open>Lines 99 to 107: the content, and the name split into base name and extension.\<close>

definition write_name ::
  "env \<Rightarrow> string \<Rightarrow> string option \<Rightarrow> error + (string \<times> pure_path \<times> string option)" where
  "write_name e name content =
     (let (content', name') =
            (case content of None \<Rightarrow> (name, ''out'' @ fmt (default_ext e)) | Some c \<Rightarrow> (c, name))
      in case with_suffix (Path name') [] of
           Inl er \<Rightarrow> Inl er
         | Inr base_name \<Rightarrow>
             Inr (content', base_name,
                  if suffix_of (Path name') \<noteq> [] then Some (suffix_of (Path name'))
                  else default_ext e))"

definition "write" ::
  "env \<Rightarrow> filesystem \<Rightarrow> string \<Rightarrow> string option \<Rightarrow> bool \<Rightarrow> bool \<Rightarrow> string option
     \<Rightarrow> string outcome option" where
  "write e fs name content rewrite_existing backup_existing encoding =
     (let encoding = py_or encoding (default_encoding e)
      in case write_name e name content of
           Inl er \<Rightarrow> Some (Inl er, fs)
         | Inr (content', base_name, ext) \<Rightarrow>
             let file_name = to_str base_name @ fmt ext
             in if is_file fs (storage_at e file_name)
                   \<and> (backup_existing \<or> \<not> rewrite_existing)
                then (case first_free e fs base_name ext 1 of
                        None \<Rightarrow> None
                      | Some counter \<Rightarrow>
                          let file_name1 = numbered base_name counter ext
                          in if \<not> rewrite_existing
                             then Some (write_file e fs file_name1 content' encoding)
                             else if backup_existing
                             then (case rename fs (storage_at e file_name)
                                                  (storage_at e file_name1) of
                                     (Inl er, fs1) \<Rightarrow> Some (Inl er, fs1)
                                   | (Inr u, fs1) \<Rightarrow>
                                       Some (write_file e fs1 file_name content' encoding))
                             else Some (write_file e fs file_name content' encoding))
                else Some (write_file e fs file_name content' encoding))"

subsection \<open>Storage.copy\<close>

text \<open>Line 157: the entry \<open>r\<close>, relative to the source, matches one of the patterns.\<close>

definition excluded :: "env \<Rightarrow> string list \<Rightarrow> location \<Rightarrow> bool" where
  "excluded e exceptions r = list_ex (fnmatch e (join_with ''/'' r)) exceptions"

text \<open>
  Lines 160 to 165, for the entry \<open>r\<close> of the source directory \<open>s\<close> and the destination
  \<open>d\<close>: a directory is created, a file is copied into its created parent.
\<close>

definition copy_entry :: "filesystem \<Rightarrow> location \<Rightarrow> location \<Rightarrow> location \<Rightarrow> unit outcome" where
  "copy_entry fs s d r =
     (if is_dir fs (s @ r) then mkdir_p fs (d @ r)
      else
        (case mkdir_p fs (butlast (d @ r)) of
           (Inl er, fs1) \<Rightarrow> (Inl er, fs1)
         | (Inr u, fs1) \<Rightarrow> copy2 fs1 (s @ r) (d @ r)))"

text \<open>The loop of lines 156 to 165 over the entries \<open>rs\<close>. An error ends the loop.\<close>

fun copy_entries ::
  "env \<Rightarrow> location \<Rightarrow> location \<Rightarrow> string list \<Rightarrow> location list \<Rightarrow> filesystem \<Rightarrow> unit outcome" where
  "copy_entries e s d exceptions [] fs = (Inr (), fs)"
| "copy_entries e s d exceptions (r # rs) fs =
     (if excluded e exceptions r then copy_entries e s d exceptions rs fs
      else
        (case copy_entry fs s d r of
           (Inl er, fs1) \<Rightarrow> (Inl er, fs1)
         | (Inr u, fs1) \<Rightarrow> copy_entries e s d exceptions rs fs1))"

text \<open>Lines 148 and 149: no exceptions given means none.\<close>

definition given :: "string list option \<Rightarrow> string list" where
  "given exceptions = (case exceptions of None \<Rightarrow> [] | Some xs \<Rightarrow> xs)"

definition copy ::
  "env \<Rightarrow> filesystem \<Rightarrow> string \<Rightarrow> string \<Rightarrow> string list option \<Rightarrow> unit outcome" where
  "copy e fs src dest exceptions =
     (let exceptions = given exceptions;
          src = (if is_absolute (Path src) then Path src else joinpath (path e) (Path src));
          dest = (if is_absolute (Path dest) then Path dest else joinpath (path e) (Path dest))
      in if is_dir fs (locate e src) then
           (case mkdir_p fs (locate e dest) of
              (Inl er, fs1) \<Rightarrow> (Inl er, fs1)
            | (Inr u, fs1) \<Rightarrow>
                copy_entries e (locate e src) (locate e dest) exceptions
                  (rglob fs1 (locate e src)) fs1)
         else if is_file fs (locate e src) then
           (if \<not> list_ex (fnmatch e (path_name src)) exceptions then
              let dest = (if is_dir fs (locate e dest)
                          then joinpath dest (Path (path_name src)) else dest)
              in case mkdir_p fs (locate e (parent dest)) of
                   (Inl er, fs1) \<Rightarrow> (Inl er, fs1)
                 | (Inr u, fs1) \<Rightarrow> copy2 fs1 (locate e src) (locate e dest)
            else (Inr (), fs))
         else (Inr (), fs))"

subsection \<open>An environment for the examples\<close>

text \<open>
  The theorems below hold in every environment. Their examples run in this one: the root
  is the relative path \<open>storage\<close>, the working directory is \<open>/work\<close>, texts and bytes
  are both lists of characters below 256, and the codecs are ASCII and Latin-1 (which the
  locale prefers). Detection answers as \<open>chardet\<close> does on such data: nothing for no
  data, ASCII for ASCII data, Latin-1 otherwise. Patterns are matched as
  \<open>fnmatch.fnmatchcase\<close> matches a pattern without brackets, and the JSON texts are
  the few literals the examples read.
\<close>

definition is_ascii :: "string \<Rightarrow> bool" where
  "is_ascii s = list_all (\<lambda>c. \<not> digit7 c) s"

definition example_encode :: "string option \<Rightarrow> string \<Rightarrow> error + string" where
  "example_encode enc s =
     (case enc of
        None \<Rightarrow> Inr s
      | Some n \<Rightarrow>
          if n = ''latin-1'' \<or> n = ''ISO-8859-1'' then Inr s
          else if n = ''ascii'' then (if is_ascii s then Inr s else Inl UnicodeError)
          else Inl LookupError)"

definition example_decode :: "string \<Rightarrow> string \<Rightarrow> error + string" where
  "example_decode n b = example_encode (Some n) b"

definition example_detect :: "string \<Rightarrow> string option" where
  "example_detect b =
     (if b = [] then None else if is_ascii b then Some ''ascii'' else Some ''ISO-8859-1'')"

fun glob_match :: "string \<Rightarrow> string \<Rightarrow> bool" where
  "glob_match [] [] = True"
| "glob_match (c # cs) [] = False"
| "glob_match [] (p # ps) = (p = CHR ''*'' \<and> glob_match [] ps)"
| "glob_match (c # cs) (p # ps) =
     (if p = CHR ''*'' then glob_match (c # cs) ps \<or> glob_match cs (p # ps)
      else (p = CHR ''?'' \<or> p = c) \<and> glob_match cs ps)"

definition example_loads :: "string \<Rightarrow> error + json" where
  "example_loads s =
     (if s = ''null'' then Inr JNone
      else if s = ''true'' then Inr (JBool True)
      else if s = ''false'' then Inr (JBool False)
      else if s = ''0'' then Inr (JInt 0)
      else if s = ''[]'' then Inr (JList [])
      else if s = ''{}'' then Inr (JDict [])
      else Inl JSONDecodeError)"

definition example_config :: config where
  "example_config =
     \<lparr> STORAGE_PATH = ''storage'', STORAGE_DEFAULT_FILE_EXT = Some ''txt'',
       DEFAULT_ENCODING = Some ''ascii'' \<rparr>"

definition example_env :: env where
  "example_env =
     \<lparr> config = example_config, cwd = [''work''],
       str_encode = example_encode, bytes_decode = example_decode,
       chardet_detect = example_detect, fnmatch = glob_match, json_loads = example_loads \<rparr>"

text \<open>The same with no default encoding configured.\<close>

definition detecting_env :: env where
  "detecting_env = example_env\<lparr> config := example_config\<lparr> DEFAULT_ENCODING := None \<rparr> \<rparr>"

text \<open>A file system with the storage directory and nothing in it.\<close>

definition empty_storage :: filesystem where
  "empty_storage = [([''work''], Dir), ([''work'', ''storage''], Dir)]"

text \<open>A small tree below the storage directory, and a file beside it.\<close>

definition example_tree :: filesystem where
  "example_tree =
     [([''work''], Dir), ([''work'', ''storage''], Dir),
      ([''work'', ''outside''], Dir),
      ([''work'', ''outside'', ''keep.txt''], File ''precious''),
      ([''work'', ''storage'', ''cache''], Dir),
      ([''work'', ''storage'', ''cache'', ''a.txt''], File ''alpha''),
      ([''work'', ''storage'', ''cache'', ''tmp''], Dir),
      ([''work'', ''storage'', ''cache'', ''tmp'', ''b.log''], File ''beta''),
      ([''work'', ''storage'', ''plain.txt''], File ''gamma'')]"

text \<open>
  Three more file systems: a bare name beside the same name with the default extension,
  a Latin-1 file, and one file name in the working directory and in the storage.
\<close>

definition two_notes :: filesystem where
  "two_notes =
     empty_storage @
     [([''work'', ''storage'', ''note''], File ''bare''),
      ([''work'', ''storage'', ''note.txt''], File ''extended'')]"

definition latin_memo :: filesystem where
  "latin_memo = empty_storage @ [([''work'', ''storage'', ''memo.txt''], File [CHR 0xE9])]"

definition two_places :: filesystem where
  "two_places =
     empty_storage @
     [([''work'', ''x.txt''], File ''beside''),
      ([''work'', ''storage'', ''x.txt''], File ''inside'')]"

text \<open>A JSON file in the storage.\<close>

definition json_state :: filesystem where
  "json_state = empty_storage @ [([''work'', ''storage'', ''state.json''], File ''[]'')]"

text \<open>The storage after \<open>write("note", "hello")\<close>, and with the first sibling taken.\<close>

definition one_note :: filesystem where
  "one_note = empty_storage @ [([''work'', ''storage'', ''note.txt''], File ''hello'')]"

definition taken_sibling :: filesystem where
  "taken_sibling = empty_storage @ [([''work'', ''storage'', ''note_1.txt''], File ''old'')]"

text \<open>
  Four more for \<open>write\<close> and \<open>copy\<close>: the first numbered sibling of the note is a
  directory; the destination holds a directory where a file of the source will go; it
  holds a regular file where a directory of the source will go; it holds a directory where
  a file two levels down will go.
\<close>

definition numbered_directory :: filesystem where
  "numbered_directory = one_note @ [([''work'', ''storage'', ''note_1.txt''], Dir)]"

definition directory_at_image :: filesystem where
  "directory_at_image =
     example_tree @
     [([''work'', ''storage'', ''backup''], Dir),
      ([''work'', ''storage'', ''backup'', ''a.txt''], Dir)]"

definition file_at_directory :: filesystem where
  "file_at_directory =
     example_tree @
     [([''work'', ''storage'', ''backup''], Dir),
      ([''work'', ''storage'', ''backup'', ''tmp''], File ''taken'')]"

definition directory_below_excluded :: filesystem where
  "directory_below_excluded =
     example_tree @
     [([''work'', ''storage'', ''backup''], Dir),
      ([''work'', ''storage'', ''backup'', ''tmp''], Dir),
      ([''work'', ''storage'', ''backup'', ''tmp'', ''b.log''], Dir)]"

subsection \<open>Auxiliary notions for the statements\<close>

text \<open>
  A path without \<open>..\<close>: the location it names is the one every system call reaches,
  whatever exists on the way.
\<close>

definition plain_path :: "pure_path \<Rightarrow> bool" where
  "plain_path p = (''..'' \<notin> set (parts p))"

text \<open>
  A string that names a file the same way as the path it spells: no component is
  \<open>..\<close>, and the last one is a proper name (the string does not end in a slash or
  in \<open>/.\<close>).
\<close>

definition plain_name :: "string \<Rightarrow> bool" where
  "plain_name s =
     (let ws = split_on CHR ''/'' s
      in ''..'' \<notin> set ws \<and> last ws \<noteq> [] \<and> last ws \<noteq> ''.'')"

text \<open>The parts of a path as \<open>Path\<close> produces them: proper names, or \<open>..\<close>.\<close>

definition clean_parts :: "string list \<Rightarrow> bool" where
  "clean_parts ws = (\<forall>w \<in> set ws. w \<noteq> [] \<and> w \<noteq> ''.'' \<and> CHR ''/'' \<notin> set w)"

text \<open>
  What holds of the file system \<open>cur\<close> throughout the copy loop, \<open>fs\<close> being the file
  system the loop starts from: it is well formed, the destination is a directory, nothing
  outside the destination has changed, and no file of the source has a directory for its
  image.
\<close>

definition copy_inv :: "location \<Rightarrow> location \<Rightarrow> filesystem \<Rightarrow> filesystem \<Rightarrow> bool" where
  "copy_inv s d fs cur =
     (well_formed cur \<and> is_dir cur d
      \<and> (\<forall>k. \<not> strict_prefix d k \<longrightarrow> node_at cur k = node_at fs k)
      \<and> (\<forall>r. is_file fs (s @ r) \<longrightarrow> \<not> is_dir cur (d @ r)))"

text \<open>
  What a round trip through a file asks of the codecs: the bytes that \<open>write\<close> stores
  for the content decode to the content again. With a default encoding configured the
  file is read in text mode, which translates carriage returns, so the content must hold
  none; with none configured the bytes are decoded with the encoding detected from them.
\<close>

definition round_trips :: "env \<Rightarrow> string \<Rightarrow> bool" where
  "round_trips e content =
     (\<forall>b. str_encode e (default_encoding e) content = Inr b \<longrightarrow>
        (case default_encoding e of
           None \<Rightarrow> (\<exists>enc. chardet_detect e b = Some enc \<and> bytes_decode e enc b = Inr content)
         | Some enc \<Rightarrow>
             bytes_decode e enc b = Inr content \<and> CHR 0x0D \<notin> set content))"

section \<open>Properties\<close>

subsection \<open>Splitting, joining and parsing\<close>

lemma split_on_not_Nil [simp]: "split_on c s \<noteq> []"
  by (induction s) (auto split: list.splits)

lemma split_on_sep_Cons [simp]: "split_on c (c # s) = [] # split_on c s"
  by simp

lemma split_on_append_sep: "split_on c (a @ c # b) = split_on c a @ split_on c b"
  by (induction a) (auto split: list.splits)

lemma split_on_free: "w \<in> set (split_on c s) \<Longrightarrow> c \<notin> set w"
  by (induction s arbitrary: w) (auto split: list.splits if_splits)

lemma split_on_without: "c \<notin> set s \<Longrightarrow> split_on c s = [s]"
  by (induction s) auto

lemma join_split_on: "join_with [c] (split_on c s) = s"
proof (induction s)
  case Nil
  then show ?case by simp
next
  case (Cons x s)
  obtain w ws where ws: "split_on c s = w # ws"
    by (cases "split_on c s") auto
  show ?case
  proof (cases "x = c")
    case True
    with Cons ws show ?thesis by simp
  next
    case False
    with Cons ws show ?thesis by (cases ws) auto
  qed
qed

lemma join_with_snoc: "ws \<noteq> [] \<Longrightarrow> join_with sep (ws @ [w]) = join_with sep ws @ sep @ w"
  by (induction sep ws rule: join_with.induct) auto

lemma split_on_join:
  "ws \<noteq> [] \<Longrightarrow> \<forall>w \<in> set ws. c \<notin> set w \<Longrightarrow> split_on c (join_with [c] ws) = ws"
proof (induction "[c]" ws rule: join_with.induct)
  case 1
  then show ?case by simp
next
  case (2 w)
  then show ?case by (simp add: split_on_without)
next
  case (3 w v ws)
  then show ?case
    using split_on_append_sep [of c w "join_with [c] (v # ws)"]
    by (simp add: split_on_without)
qed

lemma split_on_length: "length (split_on c s) = Suc (length (filter (\<lambda>x. x = c) s))"
  by (induction s) (auto split: list.splits)

lemma split_on_has: "c \<in> set s \<Longrightarrow> 2 \<le> length (split_on c s)"
  by (induction s) (auto split: list.splits)

lemma rejoin_last:
  assumes "c \<in> set s"
  shows "join_with [c] (butlast (split_on c s)) @ [c] @ last (split_on c s) = s"
proof -
  have "2 \<le> length (split_on c s)" using assms by (rule split_on_has)
  then have ne: "butlast (split_on c s) \<noteq> []"
    by (cases "split_on c s" rule: rev_cases) auto
  have "join_with [c] (butlast (split_on c s) @ [last (split_on c s)]) = s"
    by (simp add: join_split_on)
  then show ?thesis
    using join_with_snoc [OF ne, of "[c]" "last (split_on c s)"] by simp
qed

lemma clean_parts_Path: "clean_parts (parts (Path s))"
  by (auto simp: clean_parts_def Path_def dest: split_on_free)

lemma filter_clean_parts:
  "clean_parts ws \<Longrightarrow> filter (\<lambda>w. w \<noteq> [] \<and> w \<noteq> ''.'') ws = ws"
  by (induction ws) (auto simp: clean_parts_def)

lemma parts_join_clean:
  assumes "clean_parts ws"
  shows "filter (\<lambda>w. w \<noteq> [] \<and> w \<noteq> ''.'') (split_on CHR ''/'' (join_with ''/'' ws)) = ws"
proof (cases "ws = []")
  case True
  then show ?thesis by simp
next
  case False
  with assms have "split_on CHR ''/'' (join_with ''/'' ws) = ws"
    by (intro split_on_join) (auto simp: clean_parts_def)
  with assms show ?thesis by (simp add: filter_clean_parts)
qed

lemma join_clean_not_slash:
  "clean_parts ws \<Longrightarrow> ws \<noteq> [] \<Longrightarrow> \<not> startswith (join_with ''/'' ws @ t) ''/''"
  by (induction "''/''" ws rule: join_with.induct)
     (auto simp: clean_parts_def startswith_def neq_Nil_conv)

lemma Path_under:
  assumes rel: "\<not> startswith s ''/''" and cl: "clean_parts (parts p)"
  shows "Path (to_str p @ ''/'' @ s) = joinpath p (Path s)"
proof -
  have rel': "\<not> is_absolute (Path s)" using rel by (simp add: Path_def)
  have sp: "filter (\<lambda>w. w \<noteq> [] \<and> w \<noteq> ''.'')
              (split_on CHR ''/'' (join_with ''/'' (parts p) @ ''/'' @ s))
            = parts p @ parts (Path s)"
    using split_on_append_sep [of "CHR ''/''" "join_with ''/'' (parts p)" s]
      parts_join_clean [OF cl]
    by (simp add: Path_def)
  show ?thesis
  proof (cases "is_absolute p")
    case True
    then show ?thesis
      using sp rel' by (simp add: Path_def to_str_def joinpath_def startswith_def)
  next
    case False
    show ?thesis
    proof (cases "parts p = []")
      case True
      with False rel' show ?thesis
        by (simp add: Path_def to_str_def joinpath_def startswith_def)
    next
      case ne: False
      have "\<not> startswith (join_with ''/'' (parts p) @ ''/'' @ s) ''/''"
        using join_clean_not_slash [OF cl ne] .
      with False ne sp rel' show ?thesis
        by (simp add: Path_def to_str_def joinpath_def)
    qed
  qed
qed

lemma Path_under_root:
  "\<not> startswith s ''/'' \<Longrightarrow> Path (to_str (path e) @ ''/'' @ s) = joinpath (path e) (Path s)"
  by (rule Path_under) (simp_all add: path_def clean_parts_Path)

lemma split_on_append_free:
  "c \<notin> set v \<Longrightarrow>
   split_on c (u @ v) = butlast (split_on c u) @ [last (split_on c u) @ v]"
proof (induction u)
  case Nil
  then show ?case by (simp add: split_on_without)
next
  case (Cons x u)
  obtain w ws where ws: "split_on c u = w # ws"
    by (cases "split_on c u") auto
  obtain w' ws' where ws': "split_on c (u @ v) = w' # ws'"
    by (cases "split_on c (u @ v)") auto
  from Cons ws ws' show ?case
    by (cases ws) (auto split: if_splits)
qed

lemma split_on_subset: "w \<in> set (split_on c s) \<Longrightarrow> set w \<subseteq> set s"
proof (induction s arbitrary: w)
  case Nil
  then show ?case by simp
next
  case (Cons x s)
  obtain v vs where vs: "split_on c s = v # vs"
    by (cases "split_on c s") auto
  from Cons.IH vs have ih: "set v \<subseteq> set s" "\<And>u. u \<in> set vs \<Longrightarrow> set u \<subseteq> set s"
    by simp_all
  from Cons.prems vs ih show ?case
    by (auto split: if_splits)
qed

subsection \<open>Locations and lookups\<close>

text \<open>A plain path names the location its parts spell, from the root or the working directory.\<close>

lemma normpath_plain: "''..'' \<notin> set cs \<Longrightarrow> normpath acc cs = acc @ cs"
  by (induction cs arbitrary: acc) auto

lemma locate_plain:
  "plain_path p \<Longrightarrow> locate e p = (if is_absolute p then [] else cwd e) @ parts p"
  by (simp add: locate_def resolve_def plain_path_def normpath_plain)

lemma in_parents: "r \<in> set (parents k) \<longleftrightarrow> strict_prefix r k"
  by (cases k rule: rev_cases) (auto simp: parents_def strict_prefix_def)

lemma map_of_filter_key:
  "map_of (filter (\<lambda>(k, n). P k) xs) q = (if P q then map_of xs q else None)"
  by (induction xs) auto

lemma node_at_rmtree:
  "k \<noteq> [] \<Longrightarrow> node_at (rmtree fs k) q = (if prefix k q then None else node_at fs q)"
  by (auto simp: node_at_def rmtree_def map_of_filter_key)

subsection \<open>clean\<close>

text \<open>
  C1. \<open>clean\<close> raises \<open>ValueError\<close> and leaves the file system as it is when the
  resolved argument is not strictly below the resolved root. When it is strictly below,
  \<open>clean\<close> returns normally: if the resolved path is a directory, it and everything below
  it is gone and every other entry is as before; if it is not a directory (a regular file,
  or nothing), the file system is unchanged.
\<close>

theorem clean_guarded:
  "(\<not> strict_prefix (locate e (path e)) (locate e (joinpath (path e) (Path p)))
      \<longrightarrow> clean e fs p = (Inl ValueError, fs))
   \<and> (strict_prefix (locate e (path e)) (locate e (joinpath (path e) (Path p)))
      \<longrightarrow> fst (clean e fs p) = Inr ()
        \<and> (\<forall>k. node_at (snd (clean e fs p)) k =
             (if is_dir fs (locate e (joinpath (path e) (Path p)))
                 \<and> prefix (locate e (joinpath (path e) (Path p))) k
              then None else node_at fs k))
        \<and> (\<not> is_dir fs (locate e (joinpath (path e) (Path p))) \<longrightarrow> snd (clean e fs p) = fs))"
proof -
  let ?F = "locate e (joinpath (path e) (Path p))"
  have ne: "?F \<noteq> []" if "strict_prefix (locate e (path e)) ?F"
    using that by auto
  show ?thesis
    by (auto simp: clean_def Let_def in_parents node_at_rmtree ne path_exists_def is_dir_def)
qed

theorem clean_guarded_witness:
  "\<not> strict_prefix (locate example_env (path example_env))
        (locate example_env (joinpath (path example_env) (Path ''../outside'')))
   \<and> clean example_env example_tree ''../outside'' = (Inl ValueError, example_tree)
   \<and> strict_prefix (locate example_env (path example_env))
        (locate example_env (joinpath (path example_env) (Path ''cache'')))
   \<and> is_dir example_tree (locate example_env (joinpath (path example_env) (Path ''cache'')))
   \<and> fst (clean example_env example_tree ''cache'') = Inr ()
   \<and> node_at (snd (clean example_env example_tree ''cache''))
        [''work'', ''storage'', ''cache'', ''tmp'', ''b.log''] = None
   \<and> node_at (snd (clean example_env example_tree ''cache''))
        [''work'', ''storage'', ''plain.txt''] = Some (File ''gamma'')
   \<and> strict_prefix (locate example_env (path example_env))
        (locate example_env (joinpath (path example_env) (Path ''plain.txt'')))
   \<and> \<not> is_dir example_tree (locate example_env (joinpath (path example_env) (Path ''plain.txt'')))
   \<and> snd (clean example_env example_tree ''plain.txt'') = example_tree"
proof -
  have l1: "locate example_env (path example_env) = [''work'', ''storage'']"
    by code_simp
  have l2: "locate example_env (joinpath (path example_env) (Path ''../outside''))
            = [''work'', ''outside'']"
    by code_simp
  have l3: "locate example_env (joinpath (path example_env) (Path ''cache''))
            = [''work'', ''storage'', ''cache'']"
    by code_simp
  have l4: "locate example_env (joinpath (path example_env) (Path ''plain.txt''))
            = [''work'', ''storage'', ''plain.txt'']"
    by code_simp
  have d3: "is_dir example_tree [''work'', ''storage'', ''cache'']"
    by code_simp
  have d4: "\<not> is_dir example_tree [''work'', ''storage'', ''plain.txt'']"
    by code_simp
  have n1: "node_at example_tree [''work'', ''storage'', ''plain.txt''] = Some (File ''gamma'')"
    by code_simp
  show ?thesis
    using clean_guarded [of example_env "''../outside''" example_tree]
      clean_guarded [of example_env "''cache''" example_tree]
      clean_guarded [of example_env "''plain.txt''" example_tree]
    by (simp add: l1 l2 l3 l4 d3 d4 n1)
qed

subsection \<open>read: the name that is opened\<close>

lemma default_ext_not_slash: "\<not> startswith (fmt (default_ext e)) ''/''"
  by (auto simp: default_ext_def fmt_def startswith_def split: option.splits)

lemma startswith_append:
  "\<not> startswith a ''/'' \<Longrightarrow> \<not> startswith b ''/'' \<Longrightarrow> \<not> startswith (a @ b) ''/''"
  by (cases a) (auto simp: startswith_def)

lemma read_target_plain:
  assumes "\<not> startswith name ''/''" "\<not> startswith name ''./''" "CHR ''.'' \<notin> set name"
  shows "Path (read_target e fs name) =
         joinpath (path e) (Path (name @ (if exists e fs (name @ fmt (default_ext e))
                                          then fmt (default_ext e) else [])))"
proof -
  have "\<not> startswith (name @ (if exists e fs (name @ fmt (default_ext e))
                                then fmt (default_ext e) else [])) ''/''"
    using assms(1) default_ext_not_slash [of e] startswith_append [of name "fmt (default_ext e)"]
    by simp
  from Path_under_root [OF this, of e] assms show ?thesis
    by (auto simp: read_target_def Let_def)
qed

lemma read_target_dotted:
  assumes "\<not> startswith name ''/''" "\<not> startswith name ''./''" "CHR ''.'' \<in> set name"
  shows "read_target e fs name = to_str (path e) @ ''/'' @ name"
  using assms rejoin_last [of "CHR ''.''" name]
  by (simp add: read_target_def Let_def)

text \<open>
  C4, as amended. For a relative name without a dot that does not start with \<open>./\<close>,
  \<open>read\<close> appends the default extension exactly when the name with that extension
  exists below the root; otherwise it opens the bare name. Whether a file with the bare
  name exists plays no part.
\<close>

theorem read_default_extension:
  assumes "\<not> startswith name ''/''" and "\<not> startswith name ''./''"
    and "CHR ''.'' \<notin> set name"
  shows "(exists e fs (name @ fmt (default_ext e)) \<longrightarrow>
            read_target e fs name = to_str (path e) @ ''/'' @ name @ fmt (default_ext e)
          \<and> Path (read_target e fs name)
              = joinpath (path e) (Path (name @ fmt (default_ext e))))
       \<and> (\<not> exists e fs (name @ fmt (default_ext e)) \<longrightarrow>
            read_target e fs name = to_str (path e) @ ''/'' @ name
          \<and> Path (read_target e fs name) = joinpath (path e) (Path name))"
  using read_target_plain [OF assms, of e fs] assms
  by (auto simp: read_target_def Let_def)

text \<open>
  The claim as the specification words it fails where both names exist: the bare file is
  there, and the extension is appended all the same.
\<close>

theorem read_default_extension_counterexample:
  "\<not> startswith ''note'' ''/'' \<and> \<not> startswith ''note'' ''./'' \<and> CHR ''.'' \<notin> set ''note''
   \<and> is_file two_notes (locate example_env (joinpath (path example_env) (Path ''note'')))
   \<and> read_target example_env two_notes ''note'' = ''storage/note.txt''
   \<and> read example_env two_notes ''note'' None = Inr ''extended''"
  by code_simp

theorem read_default_extension_witness:
  "\<not> startswith ''note'' ''/'' \<and> \<not> startswith ''note'' ''./'' \<and> CHR ''.'' \<notin> set ''note''
   \<and> exists example_env two_notes (''note'' @ fmt (default_ext example_env))
   \<and> Path (read_target example_env two_notes ''note'')
       = joinpath (path example_env) (Path ''note.txt'')
   \<and> \<not> exists example_env empty_storage (''note'' @ fmt (default_ext example_env))
   \<and> Path (read_target example_env empty_storage ''note'')
       = joinpath (path example_env) (Path ''note'')"
proof -
  have a: "\<not> startswith ''note'' ''/''" "\<not> startswith ''note'' ''./''" "CHR ''.'' \<notin> set ''note''"
    by (simp_all add: startswith_def)
  have x: "exists example_env two_notes (''note'' @ fmt (default_ext example_env))"
    by code_simp
  have y: "\<not> exists example_env empty_storage (''note'' @ fmt (default_ext example_env))"
    by code_simp
  have f: "fmt (default_ext example_env) = ''.txt''"
    by code_simp
  have p1: "Path (read_target example_env two_notes ''note'')
            = joinpath (path example_env) (Path (''note'' @ fmt (default_ext example_env)))"
    using read_default_extension [OF a, of example_env two_notes] x by blast
  have p2: "Path (read_target example_env empty_storage ''note'')
            = joinpath (path example_env) (Path ''note'')"
    using read_default_extension [OF a, of example_env empty_storage] y by blast
  show ?thesis
    using a x y p1 p2 by (simp add: f)
qed

subsection \<open>read: the encoding\<close>

lemma to_str_split_plain:
  assumes "plain_path p" and "clean_parts (parts p)"
  shows "''..'' \<notin> set (split_on CHR ''/'' (to_str p))"
proof (cases "parts p = []")
  case True
  then show ?thesis by (simp add: to_str_def)
next
  case False
  have "split_on CHR ''/'' (join_with ''/'' (parts p)) = parts p"
    using False assms(2) by (intro split_on_join) (auto simp: clean_parts_def)
  with assms(1) False show ?thesis by (simp add: to_str_def plain_path_def)
qed

lemma opened_name_plain:
  assumes root: "plain_path (path e)" and nm: "plain_name name"
    and sl: "CHR ''/'' \<notin> set (fmt (default_ext e))"
  shows "plain_name (read_target e fs name)"
proof -
  let ?R = "to_str (path e)"
  let ?sp = "split_on CHR ''/'' name"
  from nm have dd: "''..'' \<notin> set ?sp" and l1: "last ?sp \<noteq> []" and l2: "last ?sp \<noteq> ''.''"
    by (simp_all add: plain_name_def Let_def)
  have R: "''..'' \<notin> set (split_on CHR ''/'' ?R)"
    using root by (intro to_str_split_plain) (simp_all add: path_def clean_parts_Path)
  have under: "plain_name (?R @ ''/'' @ s)"
    if "''..'' \<notin> set (split_on CHR ''/'' s)" "last (split_on CHR ''/'' s) \<noteq> []"
       "last (split_on CHR ''/'' s) \<noteq> ''.''" for s
    using that R split_on_append_sep [of "CHR ''/''" ?R s]
    by (simp add: plain_name_def Let_def)
  show ?thesis
  proof (cases "\<not> startswith name ''/'' \<and> \<not> startswith name ''./''")
    case False
    with nm show ?thesis by (auto simp: read_target_def)
  next
    case rel: True
    show ?thesis
    proof (cases "CHR ''.'' \<in> set name")
      case True
      with rel have "read_target e fs name = ?R @ ''/'' @ name"
        by (intro read_target_dotted) simp_all
      with under [of name] dd l1 l2 show ?thesis by simp
    next
      case False
      define x where "x = (if \<not> exists e fs (name @ fmt (default_ext e)) then [] else fmt (default_ext e))"
      from sl have xs: "CHR ''/'' \<notin> set x" by (simp add: x_def)
      have t: "read_target e fs name = ?R @ ''/'' @ (name @ x)"
        using rel False by (simp add: read_target_def Let_def x_def)
      have sp: "split_on CHR ''/'' (name @ x) = butlast ?sp @ [last ?sp @ x]"
        using split_on_append_free [OF xs] .
      have "last ?sp \<in> set ?sp" by simp
      from split_on_subset [OF this] False have nodot: "CHR ''.'' \<notin> set (last ?sp)" by auto
      from l1 nodot have "hd (last ?sp @ x) \<noteq> CHR ''.''"
        by (cases "last ?sp") auto
      then have a: "last ?sp @ x \<noteq> ''..''" "last ?sp @ x \<noteq> ''.''" by auto
      from dd have "''..'' \<notin> set (butlast ?sp)" by (auto dest: in_set_butlastD)
      with a l1 under [of "name @ x"] sp t show ?thesis by simp
    qed
  qed
qed

text \<open>
  C5, as amended. Take a root without \<open>..\<close>, a default extension without a slash
  and a name that is plain: no \<open>..\<close>, no trailing slash. Then the string that
  \<open>read\<close> opens is plain too, so it is opened at the location of the path it spells.
  When the encoding argument is omitted, \<open>read\<close> falls back to the configured default
  encoding: if one is configured, the file is decoded with it in text mode and detection
  is not consulted; only if none is configured are the raw bytes read, the encoding
  detected and the bytes decoded with it (a \<open>TypeError\<close> when detection finds
  nothing).
\<close>

theorem read_omitted_encoding:
  assumes root: "plain_path (path e)" and nm: "plain_name name"
    and sl: "CHR ''/'' \<notin> set (fmt (default_ext e))"
  shows "plain_name (read_target e fs name)
   \<and> (default_encoding e = None \<longrightarrow>
      read e fs name None =
        (case read_bytes fs (locate e (Path (read_target e fs name))) of
           Inl er \<Rightarrow> Inl er
         | Inr rawdata \<Rightarrow>
             (case chardet_detect e rawdata of
                None \<Rightarrow> Inl TypeError
              | Some enc \<Rightarrow> bytes_decode e enc rawdata)))
   \<and> (\<forall>enc. default_encoding e = Some enc \<longrightarrow>
      read e fs name None =
        (case read_bytes fs (locate e (Path (read_target e fs name))) of
           Inl er \<Rightarrow> Inl er
         | Inr rawdata \<Rightarrow>
             (case bytes_decode e enc rawdata of
                Inl er \<Rightarrow> Inl er
              | Inr s \<Rightarrow> Inr (universal_newlines s))))"
  using opened_name_plain [OF root nm sl, of fs]
  by (simp add: read_def py_or_def Let_def)

text \<open>
  With a default encoding configured the claim fails: the Latin-1 file would be detected
  and decoded, yet \<open>read\<close> applies the configured ASCII and raises.
\<close>

theorem read_omitted_encoding_counterexample:
  "default_encoding example_env = Some ''ascii''
   \<and> read_bytes latin_memo (locate example_env (Path (read_target example_env latin_memo ''memo''))) = Inr [CHR 0xE9]
   \<and> chardet_detect example_env [CHR 0xE9] = Some ''ISO-8859-1''
   \<and> bytes_decode example_env ''ISO-8859-1'' [CHR 0xE9] = Inr [CHR 0xE9]
   \<and> read example_env latin_memo ''memo'' None = Inl UnicodeError"
  by code_simp

theorem read_omitted_encoding_witness:
  "plain_path (path detecting_env) \<and> plain_path (path example_env)
   \<and> plain_name ''memo'' \<and> plain_name ''note''
   \<and> CHR ''/'' \<notin> set (fmt (default_ext detecting_env))
   \<and> CHR ''/'' \<notin> set (fmt (default_ext example_env))
   \<and> default_encoding detecting_env = None
   \<and> read detecting_env latin_memo ''memo'' None = Inr [CHR 0xE9]
   \<and> default_encoding example_env = Some ''ascii''
   \<and> read example_env two_notes ''note'' None = Inr ''extended''
   \<and> plain_name (read_target example_env two_notes ''note'')"
proof -
  have h: "plain_path (path detecting_env)" "plain_path (path example_env)"
    "plain_name ''memo''" "plain_name ''note''"
    "CHR ''/'' \<notin> set (fmt (default_ext detecting_env))"
    "CHR ''/'' \<notin> set (fmt (default_ext example_env))"
    by code_simp+
  have d1: "default_encoding detecting_env = None" by code_simp
  have d2: "default_encoding example_env = Some ''ascii''" by code_simp
  have r1: "(case read_bytes latin_memo (locate detecting_env (Path (read_target detecting_env latin_memo ''memo''))) of
           Inl er \<Rightarrow> Inl er
         | Inr rawdata \<Rightarrow>
             (case chardet_detect detecting_env rawdata of
                None \<Rightarrow> Inl TypeError
              | Some enc \<Rightarrow> bytes_decode detecting_env enc rawdata)) = Inr [CHR 0xE9]"
    by code_simp
  have r2: "(case read_bytes two_notes (locate example_env (Path (read_target example_env two_notes ''note''))) of
           Inl er \<Rightarrow> Inl er
         | Inr rawdata \<Rightarrow>
             (case bytes_decode example_env ''ascii'' rawdata of
                Inl er \<Rightarrow> Inl er
              | Inr s \<Rightarrow> Inr (universal_newlines s))) = Inr ''extended''"
    by code_simp
  show ?thesis
    using read_omitted_encoding [OF h(1,3,5), of latin_memo]
      read_omitted_encoding [OF h(2,4,6), of two_notes] h d1 d2 r1 r2
    by simp
qed

subsection \<open>read_json\<close>

lemma read_missing:
  assumes "node_at fs (locate e (Path (read_target e fs name))) = None"
    and "\<not> list_ex (is_file fs) (parents (locate e (Path (read_target e fs name))))"
  shows "read e fs name enc = Inl FileNotFoundError"
  using assms by (simp add: read_def Let_def read_bytes_def missing_error_def split: option.splits)

text \<open>
  C7, as amended. Take a root without \<open>..\<close>, a default extension without a slash
  and a plain name. When the file that \<open>read\<close> would open is not there and the open
  fails with the not-found error (no regular file lies on the way to it), \<open>read_json\<close>
  returns the supplied default whenever it is not \<open>None\<close>, falsy values included, and
  raises the not-found error when it is \<open>None\<close>. When the way to the missing file
  leads through a regular file, the open fails with \<open>NotADirectoryError\<close>, which
  \<open>read_json\<close> raises whatever the default. When the file is read, its text is parsed
  as JSON and the parsed value is returned.
\<close>

theorem read_json_default:
  assumes root: "plain_path (path e)" and nm: "plain_name name"
    and sl: "CHR ''/'' \<notin> set (fmt (default_ext e))"
  shows "(node_at fs (locate e (Path (read_target e fs name))) = None
      \<and> \<not> list_ex (is_file fs) (parents (locate e (Path (read_target e fs name))))
      \<longrightarrow> read_json e fs name d = (if d \<noteq> JNone then Inr d else Inl FileNotFoundError))
   \<and> (node_at fs (locate e (Path (read_target e fs name))) = None
      \<and> list_ex (is_file fs) (parents (locate e (Path (read_target e fs name))))
      \<longrightarrow> read_json e fs name d = Inl NotADirectoryError)
   \<and> (\<forall>s v. read e fs name None = Inr s \<and> json_loads e s = Inr v
      \<longrightarrow> read_json e fs name d = Inr v)"
proof (intro conjI impI allI)
  assume "node_at fs (locate e (Path (read_target e fs name))) = None
      \<and> \<not> list_ex (is_file fs) (parents (locate e (Path (read_target e fs name))))"
  then show "read_json e fs name d = (if d \<noteq> JNone then Inr d else Inl FileNotFoundError)"
    by (simp add: read_json_def read_missing)
next
  assume a: "node_at fs (locate e (Path (read_target e fs name))) = None
      \<and> list_ex (is_file fs) (parents (locate e (Path (read_target e fs name))))"
  then have "read e fs name None = Inl NotADirectoryError"
    by (simp add: read_def Let_def read_bytes_def missing_error_def split: option.splits)
  then show "read_json e fs name d = Inl NotADirectoryError"
    by (simp add: read_json_def)
next
  fix s v
  assume "read e fs name None = Inr s \<and> json_loads e s = Inr v"
  then show "read_json e fs name d = Inr v"
    by (simp add: read_json_def)
qed

text \<open>
  A missing file is not always answered with the default: below the regular file
  \<open>plain.txt\<close> there is no \<open>x.json\<close>, the open fails with
  \<open>NotADirectoryError\<close>, and the default \<open>0\<close> is not returned.
\<close>

theorem read_json_default_counterexample:
  "node_at example_tree (locate example_env (Path (read_target example_env example_tree ''plain.txt/x.json''))) = None
   \<and> JInt 0 \<noteq> JNone
   \<and> read_json example_env example_tree ''plain.txt/x.json'' (JInt 0) = Inl NotADirectoryError"
  by code_simp

theorem read_json_default_witness:
  "plain_path (path example_env) \<and> plain_name ''state'' \<and> plain_name ''state.json''
   \<and> plain_name ''plain.txt/x.json''
   \<and> CHR ''/'' \<notin> set (fmt (default_ext example_env))
   \<and> node_at empty_storage (locate example_env (Path (read_target example_env empty_storage ''state''))) = None
   \<and> \<not> list_ex (is_file empty_storage)
        (parents (locate example_env (Path (read_target example_env empty_storage ''state''))))
   \<and> read_json example_env empty_storage ''state'' (JInt 0) = Inr (JInt 0)
   \<and> read_json example_env empty_storage ''state'' (JStr []) = Inr (JStr [])
   \<and> read_json example_env empty_storage ''state'' (JList []) = Inr (JList [])
   \<and> read_json example_env empty_storage ''state'' JNone = Inl FileNotFoundError
   \<and> list_ex (is_file example_tree)
        (parents (locate example_env (Path (read_target example_env example_tree ''plain.txt/x.json''))))
   \<and> read_json example_env example_tree ''plain.txt/x.json'' (JList []) = Inl NotADirectoryError
   \<and> read example_env json_state ''state.json'' None = Inr ''[]''
   \<and> json_loads example_env ''[]'' = Inr (JList [])
   \<and> read_json example_env json_state ''state.json'' (JInt 0) = Inr (JList [])"
proof -
  have h: "plain_path (path example_env)" "plain_name ''state''" "plain_name ''state.json''"
    "plain_name ''plain.txt/x.json''"
    "CHR ''/'' \<notin> set (fmt (default_ext example_env))"
    by code_simp+
  have m: "node_at empty_storage (locate example_env (Path (read_target example_env empty_storage ''state''))) = None"
    by code_simp
  have n: "\<not> list_ex (is_file empty_storage)
        (parents (locate example_env (Path (read_target example_env empty_storage ''state''))))"
    by code_simp
  have m2: "node_at example_tree (locate example_env (Path (read_target example_env example_tree ''plain.txt/x.json''))) = None"
    by code_simp
  have n2: "list_ex (is_file example_tree)
        (parents (locate example_env (Path (read_target example_env example_tree ''plain.txt/x.json''))))"
    by code_simp
  have r: "read example_env json_state ''state.json'' None = Inr ''[]''"
    by code_simp
  have l: "json_loads example_env ''[]'' = Inr (JList [])"
    by code_simp
  show ?thesis
    using read_json_default [OF h(1,2,5), of empty_storage "JInt 0"]
      read_json_default [OF h(1,2,5), of empty_storage "JStr []"]
      read_json_default [OF h(1,2,5), of empty_storage "JList []"]
      read_json_default [OF h(1,2,5), of empty_storage JNone]
      read_json_default [OF h(1,4,5), of example_tree "JList []"]
      read_json_default [OF h(1,3,5), of json_state "JInt 0"]
      h m n m2 n2 r l
    by simp
qed

subsection \<open>Absolute and relative names\<close>

lemma Path_under_root_Cons:
  "\<not> startswith s ''/'' \<Longrightarrow> Path (to_str (path e) @ CHR ''/'' # s) = joinpath (path e) (Path s)"
  using Path_under_root [of s e] by simp

text \<open>
  C9, as amended. \<open>abs_path\<close>, like the join \<open>self.path / name\<close> of the other
  operations, uses an absolute name as it is and puts a relative name below the root.
  \<open>read\<close> uses an absolute name as it is and joins a relative name with the root unless
  the name starts with \<open>./\<close>: such a name is opened as given, so it is resolved against
  the working directory of the process and not against the root.
\<close>

theorem name_resolution:
  "(startswith name ''/'' \<longrightarrow>
      abs_path e name = Path name \<and> joinpath (path e) (Path name) = Path name
      \<and> read_target e fs name = name)
   \<and> (\<not> startswith name ''/'' \<longrightarrow>
      abs_path e name = joinpath (path e) (Path name)
      \<and> is_absolute (abs_path e name) = is_absolute (path e)
      \<and> parts (abs_path e name) = parts (path e) @ parts (Path name))
   \<and> (\<not> startswith name ''/'' \<and> \<not> startswith name ''./'' \<longrightarrow>
      Path (read_target e fs name) =
        joinpath (path e)
          (Path (if CHR ''.'' \<in> set name then name
                 else name @ (if exists e fs (name @ fmt (default_ext e))
                              then fmt (default_ext e) else []))))
   \<and> (startswith name ''./'' \<longrightarrow>
      read_target e fs name = name
      \<and> locate e (Path (read_target e fs name)) = normpath (cwd e) (parts (Path name)))"
proof -
  have a: "startswith name ''/'' \<Longrightarrow> abs_path e name = Path name
      \<and> joinpath (path e) (Path name) = Path name \<and> read_target e fs name = name"
    by (simp add: abs_path_def joinpath_def Path_def read_target_def)
  have b: "\<not> startswith name ''/'' \<Longrightarrow> abs_path e name = joinpath (path e) (Path name)
      \<and> is_absolute (abs_path e name) = is_absolute (path e)
      \<and> parts (abs_path e name) = parts (path e) @ parts (Path name)"
    by (simp add: abs_path_def joinpath_def Path_def)
  have c: "Path (read_target e fs name) =
        joinpath (path e)
          (Path (if CHR ''.'' \<in> set name then name
                 else name @ (if exists e fs (name @ fmt (default_ext e))
                              then fmt (default_ext e) else [])))"
    if r: "\<not> startswith name ''/''" "\<not> startswith name ''./''"
  proof (cases "CHR ''.'' \<in> set name")
    case True
    with r show ?thesis
      by (simp add: read_target_dotted Path_under_root_Cons)
  next
    case False
    with r show ?thesis
      by (simp add: read_target_plain)
  qed
  have d: "read_target e fs name = name
      \<and> locate e (Path (read_target e fs name)) = normpath (cwd e) (parts (Path name))"
    if r: "startswith name ''./''"
  proof -
    from r have "\<not> startswith name ''/''"
      by (cases name) (auto simp: startswith_def)
    with r show ?thesis
      by (simp add: read_target_def locate_def resolve_def Path_def)
  qed
  from a b c d show ?thesis by blast
qed

text \<open>
  The claim fails at a name that starts with \<open>./\<close>: \<open>read\<close> opens the file beside the
  storage directory, not the one in it.
\<close>

theorem name_resolution_counterexample:
  "\<not> startswith ''./x.txt'' ''/''
   \<and> locate example_env (path example_env) = [''work'', ''storage'']
   \<and> locate example_env (abs_path example_env ''./x.txt'') = [''work'', ''storage'', ''x.txt'']
   \<and> locate example_env (Path (read_target example_env two_places ''./x.txt''))
       = [''work'', ''x.txt'']
   \<and> read example_env two_places ''./x.txt'' None = Inr ''beside''"
  by code_simp

theorem name_resolution_witness:
  "startswith ''/etc/motd'' ''/''
   \<and> read_target example_env two_places ''/etc/motd'' = ''/etc/motd''
   \<and> abs_path example_env ''/etc/motd'' = Path ''/etc/motd''
   \<and> \<not> startswith ''x.txt'' ''/'' \<and> \<not> startswith ''x.txt'' ''./''
   \<and> parts (abs_path example_env ''x.txt'') = [''storage'', ''x.txt'']
   \<and> Path (read_target example_env two_places ''x.txt'')
       = joinpath (path example_env) (Path ''x.txt'')
   \<and> startswith ''./x.txt'' ''./''
   \<and> locate example_env (Path (read_target example_env two_places ''./x.txt''))
       = normpath (cwd example_env) (parts (Path ''./x.txt''))"
proof -
  have s: "startswith ''/etc/motd'' ''/''" "\<not> startswith ''x.txt'' ''/''"
    "\<not> startswith ''x.txt'' ''./''" "startswith ''./x.txt'' ''./''"
    by (simp_all add: startswith_def)
  have p: "parts (path example_env) = [''storage'']" "parts (Path ''x.txt'') = [''x.txt'']"
    by code_simp+
  have a: "read_target example_env two_places ''/etc/motd'' = ''/etc/motd''
      \<and> abs_path example_env ''/etc/motd'' = Path ''/etc/motd''"
    using name_resolution [of "''/etc/motd''" example_env two_places] s(1) by blast
  have b: "parts (abs_path example_env ''x.txt'') = parts (path example_env) @ parts (Path ''x.txt'')"
    using name_resolution [of "''x.txt''" example_env two_places] s(2) by blast
  have c: "Path (read_target example_env two_places ''x.txt'')
       = joinpath (path example_env) (Path ''x.txt'')"
    using name_resolution [of "''x.txt''" example_env two_places] s(2,3) by simp
  have d: "locate example_env (Path (read_target example_env two_places ''./x.txt''))
       = normpath (cwd example_env) (parts (Path ''./x.txt''))"
    using name_resolution [of "''./x.txt''" example_env two_places] s(4) by blast
  show ?thesis
    using s a b c d by (simp add: p)
qed

subsection \<open>What the system calls do to the lookups\<close>

lemma node_at_update:
  "k \<noteq> [] \<Longrightarrow> node_at (AList.update k v fs) q = (if q = k then Some v else node_at fs q)"
  by (simp add: node_at_def update_conv')

lemma node_at_delete:
  "node_at (AList.delete k fs) q = (if q = k \<and> k \<noteq> [] then None else node_at fs q)"
  by (auto simp: node_at_def delete_conv')

lemma is_dir_root [simp]: "is_dir fs []"
  by (simp add: is_dir_def node_at_def)

lemma is_file_not_dir: "is_file fs k \<Longrightarrow> \<not> is_dir fs k"
  by (auto simp: is_file_def is_dir_def)

lemma is_file_iff: "is_file fs k \<longleftrightarrow> (\<exists>b. node_at fs k = Some (File b))"
  by (auto simp: is_file_def split: option.splits node.splits)

lemma node_cases: "node_at fs k = None \<or> is_dir fs k \<or> is_file fs k"
  by (auto simp: is_file_def is_dir_def split: option.splits node.splits)

lemma well_formedI:
  assumes "\<forall>(k, n) \<in> set fs. k \<noteq> [] \<longrightarrow> is_dir fs (butlast k)"
  shows "well_formed fs"
  unfolding well_formed_def
proof (intro allI impI)
  fix k assume "k \<noteq> []" "node_at fs k \<noteq> None"
  then obtain n where "map_of fs k = Some n" by (auto simp: node_at_def)
  then have "(k, n) \<in> set fs" by (rule map_of_SomeD)
  with assms \<open>k \<noteq> []\<close> show "is_dir fs (butlast k)" by auto
qed

lemma well_formed_above:
  "well_formed fs \<Longrightarrow> node_at fs k \<noteq> None \<Longrightarrow> prefix q k \<Longrightarrow> is_dir fs q \<or> q = k"
proof (induction k rule: rev_induct)
  case Nil
  then show ?case by simp
next
  case (snoc x xs)
  from snoc.prems(1,2) have d: "is_dir fs xs"
    by (auto simp: well_formed_def)
  show ?case
  proof (cases "q = xs @ [x]")
    case True
    then show ?thesis by simp
  next
    case False
    with snoc.prems(3) have "prefix q xs" by (auto simp: prefix_snoc)
    with snoc.IH [OF snoc.prems(1)] d show ?thesis
      by (auto simp: is_dir_def)
  qed
qed

lemma map_of_new_dirs:
  "map_of (map (\<lambda>q. (q, Dir)) qs) q = (if q \<in> set qs then Some Dir else None)"
  by (induction qs) auto

lemma node_at_mkdir_p:
  assumes "mkdir_p fs k = (Inr u, fs')"
  shows "node_at fs' q =
           (if \<not> is_dir fs k \<and> prefix q k \<and> node_at fs q = None then Some Dir else node_at fs q)"
proof (cases "is_dir fs k")
  case True
  with assms have "fs' = fs" by (simp add: mkdir_p_def)
  with True show ?thesis by simp
next
  case False
  with assms have fs': "fs' = fs @ map (\<lambda>q. (q, Dir)) (filter (\<lambda>q. node_at fs q = None) (prefixes k))"
    by (auto simp: mkdir_p_def split: if_splits)
  show ?thesis
    using False by (auto simp: fs' node_at_def map_add_def map_of_new_dirs split: option.splits)
qed

lemma mkdir_p_error: "mkdir_p fs k = (Inl er, fs') \<Longrightarrow> fs' = fs"
  by (auto simp: mkdir_p_def split: if_splits)

lemma mkdir_p_keeps:
  "mkdir_p fs k = (r, fs') \<Longrightarrow> node_at fs q \<noteq> None \<Longrightarrow> node_at fs' q = node_at fs q"
  by (cases r) (auto simp: node_at_mkdir_p dest: mkdir_p_error)

lemma mkdir_p_target:
  assumes "mkdir_p fs k = (Inr u, fs')"
  shows "is_dir fs' k"
proof (cases "is_dir fs k")
  case True
  with assms show ?thesis by (simp add: mkdir_p_def)
next
  case False
  with assms have "\<not> is_file fs k" by (auto simp: mkdir_p_def split: if_splits)
  with False have "node_at fs k = None" using node_cases [of fs k] by simp
  with False show ?thesis
    by (simp add: is_dir_def node_at_mkdir_p [OF assms])
qed

lemma mkdir_p_well_formed:
  assumes wf: "well_formed fs" and mk: "mkdir_p fs k = (Inr u, fs')"
  shows "well_formed fs'"
proof (cases "is_dir fs k")
  case True
  with mk have "fs' = fs" by (simp add: mkdir_p_def)
  with wf show ?thesis by simp
next
  case False
  with mk have nofile: "\<not> list_ex (is_file fs) (parents k)"
    by (auto simp: mkdir_p_def split: if_splits)
  show ?thesis
    unfolding well_formed_def
  proof (intro allI impI)
    fix q assume q: "q \<noteq> []" "node_at fs' q \<noteq> None"
    show "is_dir fs' (butlast q)"
    proof (cases "node_at fs q = None")
      case old: False
      with wf q(1) have "is_dir fs (butlast q)" by (simp add: well_formed_def)
      then show ?thesis
        by (simp add: is_dir_def node_at_mkdir_p [OF mk])
    next
      case True
      with q(2) False have pq: "prefix q k"
        by (auto simp: node_at_mkdir_p [OF mk] split: if_splits)
      from q(1) have "strict_prefix (butlast q) q"
        by (cases q rule: rev_cases) (auto simp: strict_prefix_def)
      from this pq have sp: "strict_prefix (butlast q) k"
        by (rule prefix_order.less_le_trans)
      then have "\<not> is_file fs (butlast q)"
        using nofile by (auto simp: list_ex_iff in_parents)
      then have "node_at fs (butlast q) = None \<or> is_dir fs (butlast q)"
        using node_cases [of fs "butlast q"] by blast
      with sp False show ?thesis
        by (auto simp: is_dir_def node_at_mkdir_p [OF mk] strict_prefix_def)
    qed
  qed
qed

lemma create_file_lookup:
  assumes "create_file fs k = Inr fs1"
  shows "k \<noteq> []" and "\<not> is_dir fs k" and "is_dir fs (butlast k)"
    and "node_at fs1 q = (if q = k then Some (File []) else node_at fs q)"
proof -
  from assms show nd: "\<not> is_dir fs k" and "is_dir fs (butlast k)"
    by (auto simp: create_file_def split: if_splits)
  from nd show ne: "k \<noteq> []" by auto
  from assms have "fs1 = AList.update k (File []) fs"
    by (auto simp: create_file_def split: if_splits)
  with ne show "node_at fs1 q = (if q = k then Some (File []) else node_at fs q)"
    by (simp add: node_at_update)
qed

lemma write_text_frame:
  assumes "write_text e fs k c enc = (r, fs')" and "q \<noteq> k"
  shows "node_at fs' q = node_at fs q"
proof (cases "create_file fs k")
  case (Inl er)
  with assms(1) show ?thesis by (simp add: write_text_def)
next
  case (Inr fs1)
  note cf = create_file_lookup [OF Inr]
  show ?thesis
  proof (cases "str_encode e enc c")
    case (Inl er)
    with Inr assms(1) have "fs' = fs1" by (simp add: write_text_def)
    with cf(4) [of q] assms(2) show ?thesis by simp
  next
    case enc: (Inr b)
    with Inr assms(1) have "fs' = AList.update k (File b) fs1" by (simp add: write_text_def)
    with cf(1) cf(4) [of q] assms(2) show ?thesis by (simp add: node_at_update)
  qed
qed

lemma write_text_success:
  assumes "write_text e fs k c enc = (Inr u, fs')"
  shows "\<exists>b. str_encode e enc c = Inr b \<and> node_at fs' k = Some (File b)"
    and "\<not> is_dir fs k" and "is_dir fs (butlast k)"
proof -
  from assms obtain fs1 where cr: "create_file fs k = Inr fs1"
    by (cases "create_file fs k") (auto simp: write_text_def)
  note cf = create_file_lookup [OF cr]
  from assms cr obtain b where b: "str_encode e enc c = Inr b"
    and fs': "fs' = AList.update k (File b) fs1"
    by (cases "str_encode e enc c") (auto simp: write_text_def)
  show "\<exists>b. str_encode e enc c = Inr b \<and> node_at fs' k = Some (File b)"
    using b fs' cf(1) by (simp add: node_at_update)
  show "\<not> is_dir fs k" by (rule cf(2))
  show "is_dir fs (butlast k)" by (rule cf(3))
qed

lemma rename_frame:
  assumes "rename fs s d = (r, fs')" and "q \<noteq> s" and "q \<noteq> d"
  shows "node_at fs' q = node_at fs q"
proof (cases "\<exists>b. node_at fs s = Some (File b)")
  case False
  with assms(1) have "fs' = fs"
    by (auto simp: rename_def split: option.splits node.splits)
  then show ?thesis by simp
next
  case True
  then obtain b where b: "node_at fs s = Some (File b)" by blast
  show ?thesis
  proof (cases "fs' = fs")
    case True
    then show ?thesis by simp
  next
    case False
    with assms(1) b have nd: "\<not> is_dir fs d"
      and fs': "fs' = AList.update d (File b) (AList.delete s fs)"
      by (auto simp: rename_def split: if_splits)
    from nd have "d \<noteq> []" by auto
    with assms(2,3) show ?thesis
      by (simp add: fs' node_at_update node_at_delete)
  qed
qed

lemma rename_success:
  assumes "rename fs s d = (Inr u, fs')" and "s \<noteq> d"
  shows "\<exists>b. node_at fs s = Some (File b) \<and> node_at fs' d = Some (File b)"
    and "node_at fs' s = None" and "\<not> is_dir fs d"
proof -
  from assms obtain b where b: "node_at fs s = Some (File b)"
    by (auto simp: rename_def split: option.splits node.splits)
  then have s: "s \<noteq> []" by (auto simp: node_at_def)
  from assms b have nd: "\<not> is_dir fs d" and fs': "fs' = AList.update d (File b) (AList.delete s fs)"
    by (auto simp: rename_def split: if_splits)
  from nd have d: "d \<noteq> []" by auto
  show "\<not> is_dir fs d" by (rule nd)
  show "\<exists>b. node_at fs s = Some (File b) \<and> node_at fs' d = Some (File b)"
    using b d by (simp add: fs' node_at_update)
  show "node_at fs' s = None"
    using assms(2) d s by (simp add: fs' node_at_update node_at_delete)
qed

lemma write_file_frame:
  assumes "write_file e fs file_name c enc = (r, fs')"
    and "node_at fs q \<noteq> None" and "q \<noteq> storage_at e file_name"
  shows "node_at fs' q = node_at fs q"
proof -
  obtain r1 fs1 where mk: "mkdir_p fs (locate e (parent (joinpath (path e) (Path file_name)))) = (r1, fs1)"
    by (cases "mkdir_p fs (locate e (parent (joinpath (path e) (Path file_name))))")
  have k: "node_at fs1 q = node_at fs q"
    using mkdir_p_keeps [OF mk assms(2)] .
  show ?thesis
  proof (cases r1)
    case (Inl er)
    with assms(1) mk have "fs' = fs1" by (simp add: write_file_def)
    with k show ?thesis by simp
  next
    case (Inr u)
    obtain r2 fs2 where wt: "write_text e fs1 (storage_at e file_name) c enc = (r2, fs2)"
      by (cases "write_text e fs1 (storage_at e file_name) c enc")
    with assms(1) mk Inr have "fs' = fs2"
      by (auto simp: write_file_def split: sum.splits)
    with write_text_frame [OF wt assms(3)] k show ?thesis by simp
  qed
qed

lemma write_file_success:
  assumes "write_file e fs file_name c enc = (Inr f, fs')"
  shows "f = file_name"
    and "\<exists>b. str_encode e enc c = Inr b \<and> node_at fs' (storage_at e file_name) = Some (File b)"
    and "\<not> is_dir fs (storage_at e file_name)"
proof -
  from assms obtain u fs1 where
    mk: "mkdir_p fs (locate e (parent (joinpath (path e) (Path file_name)))) = (Inr u, fs1)"
    by (auto simp: write_file_def split: prod.splits sum.splits)
  with assms obtain u' where wt: "write_text e fs1 (storage_at e file_name) c enc = (Inr u', fs')"
    and f: "f = file_name"
    by (auto simp: write_file_def split: prod.splits sum.splits)
  show "f = file_name" by (rule f)
  show "\<exists>b. str_encode e enc c = Inr b \<and> node_at fs' (storage_at e file_name) = Some (File b)"
    using write_text_success(1) [OF wt] .
  have nd1: "\<not> is_dir fs1 (storage_at e file_name)"
    using write_text_success(2) [OF wt] .
  show "\<not> is_dir fs (storage_at e file_name)"
  proof
    assume "is_dir fs (storage_at e file_name)"
    then have "node_at fs (storage_at e file_name) \<noteq> None" by (simp add: is_dir_def)
    from mkdir_p_keeps [OF mk this] \<open>is_dir fs (storage_at e file_name)\<close> nd1
    show False by (simp add: is_dir_def)
  qed
qed

subsection \<open>The numbered candidates and the loop over them\<close>

lemma str_nat_not_Nil: "str_nat n \<noteq> []"
  by (subst str_nat.simps) simp

lemma digit_char_inj: "a < 10 \<Longrightarrow> b < 10 \<Longrightarrow> digit_char a = digit_char b \<Longrightarrow> a = b"
proof -
  assume a: "a < 10" and b: "b < 10" and eq: "digit_char a = digit_char b"
  have d: "distinct ''0123456789''" by simp
  have "length ''0123456789'' = 10" by simp
  with a b eq d show "a = b"
    unfolding digit_char_def by (metis nth_eq_iff_index_eq)
qed

lemma str_nat_inj: "str_nat m = str_nat n \<Longrightarrow> m = n"
proof (induction n arbitrary: m rule: str_nat.induct)
  case (1 n)
  show ?case
  proof (cases "n < 10")
    case small: True
    show ?thesis
    proof (cases "m < 10")
      case True
      with small "1.prems" show ?thesis
        by (subst (asm) (1 2) str_nat.simps) (auto dest: digit_char_inj)
    next
      case False
      then have "str_nat m = str_nat (m div 10) @ [digit_char (m mod 10)]"
        by (subst str_nat.simps) simp
      moreover from small have "str_nat n = [digit_char n]"
        by (subst str_nat.simps) simp
      ultimately show ?thesis
        using "1.prems" str_nat_not_Nil [of "m div 10"] by simp
    qed
  next
    case big: False
    then have n: "str_nat n = str_nat (n div 10) @ [digit_char (n mod 10)]"
      by (subst str_nat.simps) simp
    show ?thesis
    proof (cases "m < 10")
      case True
      then have "str_nat m = [digit_char m]"
        by (subst str_nat.simps) simp
      with n "1.prems" str_nat_not_Nil [of "n div 10"] show ?thesis by simp
    next
      case False
      then have m: "str_nat m = str_nat (m div 10) @ [digit_char (m mod 10)]"
        by (subst str_nat.simps) simp
      from m n "1.prems" have a: "str_nat (m div 10) = str_nat (n div 10)"
        and b: "digit_char (m mod 10) = digit_char (n mod 10)"
        by simp_all
      from "1.IH" [OF big a] have "m div 10 = n div 10" .
      moreover from b have "m mod 10 = n mod 10"
        by (intro digit_char_inj) simp_all
      ultimately show ?thesis
        by (metis div_mult_mod_eq)
    qed
  qed
qed

lemma normpath_append: "normpath acc (a @ b) = normpath (normpath acc a) b"
  by (induction a arbitrary: acc) auto

lemma normpath_snoc: "c \<noteq> ''..'' \<Longrightarrow> normpath acc (a @ [c]) = normpath acc a @ [c]"
  by (simp add: normpath_append)

text \<open>The candidates differ in their last component only.\<close>

lemma numbered_shape:
  assumes "CHR ''/'' \<notin> set (fmt ext)"
  shows "\<exists>k0 w. \<forall>n. storage_at e (numbered base n ext) = k0 @ [w @ ''_'' @ str_nat n @ fmt ext]"
proof -
  let ?u = "to_str base"
  let ?sp = "split_on CHR ''/'' ?u"
  define w where "w = last ?sp"
  define ps where "ps = filter (\<lambda>w. w \<noteq> [] \<and> w \<noteq> ''.'') (butlast ?sp)"
  have digits: "CHR ''/'' \<notin> set (str_nat n)" for n
  proof (induction n rule: str_nat.induct)
    case (1 n)
    have d: "CHR ''/'' \<noteq> digit_char k" if "k < 10" for k
    proof -
      from that have "digit_char k \<in> set ''0123456789''"
        unfolding digit_char_def by (intro nth_mem) simp
      then show ?thesis by auto
    qed
    show ?case
    proof (cases "n < 10")
      case True
      then have "str_nat n = [digit_char n]" by (subst str_nat.simps) simp
      with d [OF True] show ?thesis by simp
    next
      case False
      then have "str_nat n = str_nat (n div 10) @ [digit_char (n mod 10)]"
        by (subst str_nat.simps) simp
      with "1.IH" [OF False] d [of "n mod 10"] show ?thesis by simp
    qed
  qed
  have tail: "CHR ''/'' \<notin> set (''_'' @ str_nat n @ fmt ext)" for n
    using assms digits [of n] by simp
  have keep: "last ?sp @ CHR ''_'' # str_nat n @ fmt ext \<noteq> ''.''" for n
  proof
    assume "last ?sp @ CHR ''_'' # str_nat n @ fmt ext = ''.''"
    then have "set (last ?sp @ CHR ''_'' # str_nat n @ fmt ext) = set ''.''" by simp
    then show False by auto
  qed
  have parts: "parts (Path (numbered base n ext)) = ps @ [w @ ''_'' @ str_nat n @ fmt ext]" for n
    using split_on_append_free [where c = "CHR ''/''" and u = ?u
        and v = "''_'' @ str_nat n @ fmt ext"] tail [of n] keep [of n]
    by (simp add: Path_def numbered_def ps_def w_def)
  have abs: "is_absolute (Path (numbered base n ext)) = startswith (?u @ ''_'') ''/''" for n
    by (cases ?u) (simp_all add: Path_def numbered_def startswith_def)
  have notdd: "w @ ''_'' @ str_nat n @ fmt ext \<noteq> ''..''" for n
  proof
    assume "w @ ''_'' @ str_nat n @ fmt ext = ''..''"
    then have "set (w @ ''_'' @ str_nat n @ fmt ext) = set ''..''" by simp
    then show False by auto
  qed
  define start where "start = (if startswith (?u @ ''_'') ''/'' then []
      else normpath (if is_absolute (path e) then [] else cwd e) (parts (path e)))"
  have "storage_at e (numbered base n ext) = normpath start ps @ [w @ ''_'' @ str_nat n @ fmt ext]" for n
    using normpath_snoc [OF notdd, of _ ps n]
    by (simp add: storage_at_def locate_def resolve_def joinpath_def abs parts start_def
                  normpath_append)
  then show ?thesis by blast
qed

lemma numbered_inj:
  assumes "CHR ''/'' \<notin> set (fmt ext)"
  shows "inj (\<lambda>n. storage_at e (numbered base n ext))"
proof -
  from numbered_shape [OF assms, of e base] obtain k0 w where
    sh: "\<And>n. storage_at e (numbered base n ext) = k0 @ [w @ ''_'' @ str_nat n @ fmt ext]"
    by blast
  show ?thesis
    by (rule injI) (simp add: sh str_nat_inj)
qed

lemma first_free_sound:
  assumes "first_free e fs base ext c = Some n"
  shows "c \<le> n \<and> \<not> is_file fs (storage_at e (numbered base n ext))
     \<and> (\<forall>m. c \<le> m \<and> m < n \<longrightarrow> is_file fs (storage_at e (numbered base m ext)))"
proof (rule first_free.raw_induct [where P = "\<lambda>e fs base ext c n.
     c \<le> n \<and> \<not> is_file fs (storage_at e (numbered base n ext))
     \<and> (\<forall>m. c \<le> m \<and> m < n \<longrightarrow> is_file fs (storage_at e (numbered base m ext)))",
     OF _ assms])
  fix f :: "env \<Rightarrow> filesystem \<Rightarrow> pure_path \<Rightarrow> string option \<Rightarrow> nat \<Rightarrow> nat option"
  fix e fs base ext c n
  assume IH: "\<And>e fs base ext c n. f e fs base ext c = Some n \<Longrightarrow>
     c \<le> n \<and> \<not> is_file fs (storage_at e (numbered base n ext))
     \<and> (\<forall>m. c \<le> m \<and> m < n \<longrightarrow> is_file fs (storage_at e (numbered base m ext)))"
  assume step: "(if \<not> is_file fs (storage_at e (numbered base c ext)) then Some c
                 else f e fs base ext (c + 1)) = Some n"
  show "c \<le> n \<and> \<not> is_file fs (storage_at e (numbered base n ext))
     \<and> (\<forall>m. c \<le> m \<and> m < n \<longrightarrow> is_file fs (storage_at e (numbered base m ext)))"
  proof (cases "is_file fs (storage_at e (numbered base c ext))")
    case False
    with step show ?thesis by auto
  next
    case True
    with step have "f e fs base ext (c + 1) = Some n" by simp
    from IH [OF this] have n: "c + 1 \<le> n"
      and free: "\<not> is_file fs (storage_at e (numbered base n ext))"
      and rest: "\<And>m. c + 1 \<le> m \<Longrightarrow> m < n \<Longrightarrow> is_file fs (storage_at e (numbered base m ext))"
      by auto
    have "is_file fs (storage_at e (numbered base m ext))" if "c \<le> m" "m < n" for m
    proof (cases "m = c")
      case True
      with \<open>is_file fs (storage_at e (numbered base c ext))\<close> show ?thesis by simp
    next
      case False
      with that have "c + 1 \<le> m" by simp
      from rest [OF this that(2)] show ?thesis .
    qed
    with n free show ?thesis by simp
  qed
qed

lemma first_free_found:
  "\<not> is_file fs (storage_at e (numbered base n ext)) \<Longrightarrow> c \<le> n \<Longrightarrow>
     \<exists>m. first_free e fs base ext c = Some m"
proof (induction "n - c" arbitrary: c)
  case 0
  then have "c = n" by simp
  with "0.prems" show ?case by (subst first_free.simps) simp
next
  case (Suc d)
  show ?case
  proof (cases "is_file fs (storage_at e (numbered base c ext))")
    case False
    then show ?thesis by (subst first_free.simps) simp
  next
    case True
    from Suc have "d = n - (c + 1)" "c + 1 \<le> n" by simp_all
    from Suc.hyps(1) [OF this(1) Suc.prems(1) this(2)] True show ?thesis
      by (subst first_free.simps) simp
  qed
qed

lemma finite_files: "finite {k. is_file fs k}"
proof -
  have "{k. is_file fs k} \<subseteq> insert [] (fst ` set fs)"
    by (auto simp: is_file_iff node_at_def dest!: map_of_SomeD intro: rev_image_eqI split: if_splits)
  then show ?thesis by (rule finite_subset) simp
qed

lemma first_free_total:
  assumes "CHR ''/'' \<notin> set (fmt ext)"
  shows "\<exists>m. first_free e fs base ext c = Some m"
proof -
  have "finite ((\<lambda>n. storage_at e (numbered base n ext)) -` {k. is_file fs k})"
    using finite_files numbered_inj [OF assms] by (rule finite_vimageI)
  then have "finite {n. is_file fs (storage_at e (numbered base n ext))}"
    by (simp add: vimage_def)
  then obtain b where b: "\<forall>n \<in> {n. is_file fs (storage_at e (numbered base n ext))}. n \<le> b"
    using finite_nat_set_iff_bounded_le by blast
  have "\<not> is_file fs (storage_at e (numbered base (Suc (max b c)) ext))"
  proof
    assume "is_file fs (storage_at e (numbered base (Suc (max b c)) ext))"
    with b have "Suc (max b c) \<le> b" by simp
    then show False by simp
  qed
  moreover have "c \<le> Suc (max b c)" by simp
  ultimately show ?thesis by (rule first_free_found)
qed

subsection \<open>write without rewriting\<close>

lemma write_no_rewrite:
  assumes "write_name e name content = Inr (c, base, ext)"
    and "is_file fs (storage_at e (to_str base @ fmt ext))"
  shows "write e fs name content False backup encoding =
           (case first_free e fs base ext 1 of
              None \<Rightarrow> None
            | Some n \<Rightarrow> Some (write_file e fs (numbered base n ext) c
                               (py_or encoding (default_encoding e))))"
  using assms by (simp add: write_def Let_def split: option.splits)

lemma to_str_last:
  assumes "parts p \<noteq> []" and "\<forall>w \<in> set (parts p). CHR ''/'' \<notin> set w"
  shows "last (split_on CHR ''/'' (to_str p)) = last (parts p)"
proof -
  have "split_on CHR ''/'' (join_with ''/'' (parts p)) = parts p"
    using assms by (intro split_on_join) auto
  with assms(1) show ?thesis by (simp add: to_str_def)
qed

lemma suffix_of_drop:
  assumes "suffix_of p \<noteq> []"
  shows "\<exists>i. 0 < i \<and> i < length (path_name p) \<and> suffix_of p = drop i (path_name p)"
  using assms by (auto simp: suffix_of_def Let_def split: option.splits if_splits)

lemma write_name_last:
  assumes nm: "write_name e name content = Inr (c, base, ext)"
  shows "last (split_on CHR ''/'' (to_str base)) \<noteq> []"
    and "last (split_on CHR ''/'' (to_str base)) @ fmt ext \<noteq> ''.''"
proof -
  define p where "p = Path (case content of None \<Rightarrow> ''out'' @ fmt (default_ext e) | Some c \<Rightarrow> name)"
  define old where "old = suffix_of p"
  define n' where "n' = (if old = [] then path_name p else take (length (path_name p) - length old) (path_name p))"
  from nm have ws: "with_suffix p [] = Inr base"
    and ext: "ext = (if old \<noteq> [] then Some old else default_ext e)"
    by (auto simp: write_name_def p_def old_def Let_def split: option.splits sum.splits prod.splits)
  from ws have ne: "path_name p \<noteq> []" and base: "base = p\<lparr>parts := butlast (parts p) @ [n']\<rparr>"
    by (auto simp: with_suffix_def Let_def n'_def old_def split: if_splits)
  from ne have pne: "parts p \<noteq> []" and lst: "path_name p = last (parts p)"
    by (auto simp: path_name_def split: if_splits)
  have cl: "clean_parts (parts p)" by (simp add: p_def clean_parts_Path)
  from pne lst have mem: "path_name p \<in> set (parts p)" by simp
  with cl have nm1: "path_name p \<noteq> ''.''" and nm2: "CHR ''/'' \<notin> set (path_name p)"
    by (auto simp: clean_parts_def)
  have whole: "n' @ (if old = [] then [] else old) = path_name p"
  proof (cases "old = []")
    case True
    then show ?thesis by (simp add: n'_def)
  next
    case False
    with suffix_of_drop [of p] obtain i where i: "0 < i" "i < length (path_name p)"
      and o: "old = drop i (path_name p)"
      by (auto simp: old_def)
    from i o have "n' = take i (path_name p)" using False by (simp add: n'_def)
    with o False show ?thesis by simp
  qed
  have n'ne: "n' \<noteq> []"
  proof (cases "old = []")
    case True
    with ne show ?thesis by (simp add: n'_def)
  next
    case False
    with suffix_of_drop [of p] obtain i where i: "0 < i" "i < length (path_name p)"
      and o: "old = drop i (path_name p)"
      by (auto simp: old_def)
    from i o have "n' = take i (path_name p)" using False by (simp add: n'_def)
    with i show ?thesis by auto
  qed
  have "set n' \<subseteq> set (path_name p)"
    by (auto simp: n'_def dest: in_set_takeD)
  with nm2 have n'sl: "CHR ''/'' \<notin> set n'" by auto
  have "\<forall>w \<in> set (parts base). CHR ''/'' \<notin> set w"
    using cl n'sl by (auto simp: base clean_parts_def dest: in_set_butlastD)
  moreover have "parts base \<noteq> []" by (simp add: base)
  ultimately have l: "last (split_on CHR ''/'' (to_str base)) = n'"
    using to_str_last [of base] by (simp add: base)
  show "last (split_on CHR ''/'' (to_str base)) \<noteq> []"
    using l n'ne by simp
  show "last (split_on CHR ''/'' (to_str base)) @ fmt ext \<noteq> ''.''"
  proof (cases "old = []")
    case True
    with whole have "n' = path_name p" by simp
    with nm1 ne l show ?thesis by (auto simp: append_eq_Cons_conv)
  next
    case False
    with ext have "fmt ext = old" by (simp add: fmt_def)
    with whole False nm1 l show ?thesis by simp
  qed
qed

lemma sibling_shape:
  assumes sl: "CHR ''/'' \<notin> set (fmt ext)"
    and kept: "last (split_on CHR ''/'' (to_str base)) @ fmt ext \<noteq> []"
              "last (split_on CHR ''/'' (to_str base)) @ fmt ext \<noteq> ''.''"
              "last (split_on CHR ''/'' (to_str base)) @ fmt ext \<noteq> ''..''"
  shows "\<exists>k0 w. storage_at e (to_str base @ fmt ext) = k0 @ [w @ fmt ext]
           \<and> (\<forall>n. storage_at e (numbered base n ext) = k0 @ [w @ ''_'' @ str_nat n @ fmt ext]
                \<and> locate e (parent (joinpath (path e) (Path (numbered base n ext)))) = k0)"
proof -
  let ?u = "to_str base"
  let ?sp = "split_on CHR ''/'' ?u"
  define w where "w = last ?sp"
  define ps where "ps = filter (\<lambda>w. w \<noteq> [] \<and> w \<noteq> ''.'') (butlast ?sp)"
  have digits: "CHR ''/'' \<notin> set (str_nat n)" for n
  proof (induction n rule: str_nat.induct)
    case (1 n)
    have d: "CHR ''/'' \<noteq> digit_char k" if "k < 10" for k
    proof -
      from that have "digit_char k \<in> set ''0123456789''"
        unfolding digit_char_def by (intro nth_mem) simp
      then show ?thesis by auto
    qed
    show ?case
    proof (cases "n < 10")
      case True
      then have "str_nat n = [digit_char n]" by (subst str_nat.simps) simp
      with d [OF True] show ?thesis by simp
    next
      case False
      then have "str_nat n = str_nat (n div 10) @ [digit_char (n mod 10)]"
        by (subst str_nat.simps) simp
      with "1.IH" [OF False] d [of "n mod 10"] show ?thesis by simp
    qed
  qed
  have tail: "CHR ''/'' \<notin> set (''_'' @ str_nat n @ fmt ext)" for n
    using sl digits [of n] by simp
  have keep: "last ?sp @ CHR ''_'' # str_nat n @ fmt ext \<noteq> ''.''" for n
  proof
    assume "last ?sp @ CHR ''_'' # str_nat n @ fmt ext = ''.''"
    then have "set (last ?sp @ CHR ''_'' # str_nat n @ fmt ext) = set ''.''" by simp
    then show False by auto
  qed
  have parts: "parts (Path (numbered base n ext)) = ps @ [w @ ''_'' @ str_nat n @ fmt ext]" for n
    using split_on_append_free [where c = "CHR ''/''" and u = ?u
        and v = "''_'' @ str_nat n @ fmt ext"] tail [of n] keep [of n]
    by (simp add: Path_def numbered_def ps_def w_def)
  have parts0: "parts (Path (?u @ fmt ext)) = ps @ [w @ fmt ext]"
    using split_on_append_free [where c = "CHR ''/''" and u = ?u and v = "fmt ext"] sl kept(1,2)
    by (simp add: Path_def ps_def w_def)
  have abs: "is_absolute (Path (numbered base n ext)) = startswith (?u @ ''_'') ''/''" for n
    by (cases ?u) (simp_all add: Path_def numbered_def startswith_def)
  have abs0: "is_absolute (Path (?u @ fmt ext)) = startswith (?u @ ''_'') ''/''"
  proof (cases ?u)
    case Nil
    with sl show ?thesis by (cases "fmt ext") (auto simp: Path_def startswith_def)
  next
    case (Cons a list)
    then show ?thesis by (simp add: Path_def startswith_def)
  qed
  have notdd: "w @ ''_'' @ str_nat n @ fmt ext \<noteq> ''..''" for n
  proof
    assume "w @ ''_'' @ str_nat n @ fmt ext = ''..''"
    then have "set (w @ ''_'' @ str_nat n @ fmt ext) = set ''..''" by simp
    then show False by auto
  qed
  define start where "start = (if startswith (?u @ ''_'') ''/'' then []
      else normpath (if is_absolute (path e) then [] else cwd e) (parts (path e)))"
  have a: "storage_at e (numbered base n ext) = normpath start ps @ [w @ ''_'' @ str_nat n @ fmt ext]" for n
    using normpath_snoc [OF notdd, of _ ps n]
    by (simp add: storage_at_def locate_def resolve_def joinpath_def abs parts start_def
                  normpath_append)
  have b: "locate e (parent (joinpath (path e) (Path (numbered base n ext)))) = normpath start ps" for n
    by (simp add: locate_def resolve_def joinpath_def parent_def abs parts start_def
                  normpath_append butlast_append)
  have c: "storage_at e (?u @ fmt ext) = normpath start ps @ [w @ fmt ext]"
    using normpath_snoc [of "w @ fmt ext" _ ps] kept(3)
    by (simp add: storage_at_def locate_def resolve_def joinpath_def abs0 parts0 start_def
                  normpath_append w_def)
  from a b c show ?thesis by blast
qed


lemma plain_last:
  assumes sl: "CHR ''/'' \<notin> set x"
    and plain: "plain_path (joinpath (path e) (Path (u @ x)))"
  shows "last (split_on CHR ''/'' u) @ x \<noteq> ''..''"
proof
  assume dd: "last (split_on CHR ''/'' u) @ x = ''..''"
  have "split_on CHR ''/'' (u @ x) = butlast (split_on CHR ''/'' u) @ [''..'']"
    using split_on_append_free [OF sl, of u] dd by simp
  then have "''..'' \<in> set (parts (Path (u @ x)))"
    by (simp add: Path_def)
  then have "''..'' \<in> set (parts (joinpath (path e) (Path (u @ x))))"
    by (simp add: joinpath_def)
  with plain show False by (simp add: plain_path_def)
qed

text \<open>
  C3, as amended. Let the name split into base name and extension, let the target
  \<open>base + ext\<close> be an existing regular file of a well-formed file system, its path
  without \<open>..\<close> and the extension without a slash. Then \<open>write\<close> with
  \<open>rewrite_existing = False\<close>, whatever \<open>backup_existing\<close> is, returns, and it
  leaves the node at the target as it was. The name it writes to is \<open>base_n ext\<close> for
  the least \<open>n \<ge> 1\<close> whose candidate is not a regular file. If that candidate is a
  directory, the call raises \<open>IsADirectoryError\<close> and changes nothing. If it is not,
  it does not exist: a content that encodes is stored there, the numbered name is returned
  and every other node is as before; a content that does not encode is the encoder's
  error.
\<close>

theorem write_keeps_existing:
  assumes nm: "write_name e name content = Inr (c, base, ext)"
    and ex: "is_file fs (storage_at e (to_str base @ fmt ext))"
    and plain: "plain_path (joinpath (path e) (Path (to_str base @ fmt ext)))"
    and sl: "CHR ''/'' \<notin> set (fmt ext)"
    and wf: "well_formed fs"
  shows "\<exists>n. 1 \<le> n
          \<and> \<not> is_file fs (storage_at e (numbered base n ext))
          \<and> (\<forall>m. 1 \<le> m \<and> m < n \<longrightarrow> is_file fs (storage_at e (numbered base m ext)))
          \<and> (\<forall>r fs'. write e fs name content False backup encoding = Some (r, fs') \<longrightarrow>
                node_at fs' (storage_at e (to_str base @ fmt ext))
                  = node_at fs (storage_at e (to_str base @ fmt ext)))
          \<and> (is_dir fs (storage_at e (numbered base n ext)) \<longrightarrow>
                write e fs name content False backup encoding = Some (Inl IsADirectoryError, fs))
          \<and> (\<forall>b. \<not> is_dir fs (storage_at e (numbered base n ext))
                  \<and> str_encode e (py_or encoding (default_encoding e)) c = Inr b \<longrightarrow>
                (\<exists>fs'. write e fs name content False backup encoding
                          = Some (Inr (numbered base n ext), fs')
                      \<and> (\<forall>q. node_at fs' q =
                            (if q = storage_at e (numbered base n ext) then Some (File b)
                             else node_at fs q))))
          \<and> (\<forall>er. \<not> is_dir fs (storage_at e (numbered base n ext))
                  \<and> str_encode e (py_or encoding (default_encoding e)) c = Inl er \<longrightarrow>
                (\<exists>fs'. write e fs name content False backup encoding = Some (Inl er, fs')))"
proof -
  let ?enc = "py_or encoding (default_encoding e)"
  let ?T = "storage_at e (to_str base @ fmt ext)"
  from first_free_total [OF sl, of e fs base 1]
  obtain n where ff: "first_free e fs base ext 1 = Some n" by blast
  note snd = first_free_sound [OF ff]
  let ?k = "storage_at e (numbered base n ext)"
  have w: "write e fs name content False backup encoding
             = Some (write_file e fs (numbered base n ext) c ?enc)"
    using write_no_rewrite [OF nm ex, of backup encoding] ff by simp
  from sibling_shape [OF sl _ write_name_last(2) [OF nm] plain_last [OF sl plain], of e]
    write_name_last(1) [OF nm]
  obtain k0 w0 where T: "?T = k0 @ [w0 @ fmt ext]"
    and k: "?k = k0 @ [w0 @ ''_'' @ str_nat n @ fmt ext]"
    and par: "locate e (parent (joinpath (path e) (Path (numbered base n ext)))) = k0"
    by auto
  from ex have exT: "node_at fs ?T \<noteq> None" by (auto simp: is_file_def split: option.splits)
  from wf exT T have d0: "is_dir fs k0"
    unfolding well_formed_def by (metis butlast_snoc snoc_eq_iff_butlast)
  then have mk: "mkdir_p fs k0 = (Inr (), fs)" by (simp add: mkdir_p_def)
  have wfile: "write_file e fs (numbered base n ext) c ?enc
        = (case write_text e fs ?k c ?enc of
             (Inl er, fs2) \<Rightarrow> (Inl er, fs2)
           | (Inr u', fs2) \<Rightarrow> (Inr (numbered base n ext), fs2))"
    by (simp add: write_file_def par mk)
  from k have kne: "?k \<noteq> []" and bk: "butlast ?k = k0" by simp_all
  from snd ex have neq: "?T \<noteq> ?k" by auto
  have frame: "node_at fs' ?T = node_at fs ?T"
    if "write e fs name content False backup encoding = Some (r, fs')" for r fs'
  proof -
    from that w have "write_file e fs (numbered base n ext) c ?enc = (r, fs')" by simp
    from write_file_frame [OF this exT neq] show ?thesis .
  qed
  have isdir: "write e fs name content False backup encoding = Some (Inl IsADirectoryError, fs)"
    if "is_dir fs ?k"
    using that by (simp add: w wfile write_text_def create_file_def)
  have cr: "create_file fs ?k = Inr (AList.update ?k (File []) fs)" if "\<not> is_dir fs ?k"
    using that d0 by (simp add: create_file_def bk)
  have good: "\<exists>fs'. write e fs name content False backup encoding
                          = Some (Inr (numbered base n ext), fs')
                      \<and> (\<forall>q. node_at fs' q = (if q = ?k then Some (File b) else node_at fs q))"
    if "\<not> is_dir fs ?k" and "str_encode e ?enc c = Inr b" for b
    using that kne by (simp add: w wfile write_text_def cr node_at_update)
  have bad: "\<exists>fs'. write e fs name content False backup encoding = Some (Inl er, fs')"
    if "\<not> is_dir fs ?k" and "str_encode e ?enc c = Inl er" for er
    using that by (simp add: w wfile write_text_def cr)
  from snd frame isdir good bad show ?thesis
    by (intro exI [of _ n]) blast
qed

text \<open>
  The claim names the first numbered name that does not exist. The loop looks for
  regular files only: with a directory \<open>note_1.txt\<close> it stops at that name, the
  write to it fails, and nothing is written to \<open>note_2.txt\<close>, the first name that does
  not exist.
\<close>

theorem write_keeps_existing_counterexample:
  "is_file numbered_directory (storage_at example_env ''note.txt'')
   \<and> path_exists numbered_directory (storage_at example_env ''note_1.txt'')
   \<and> node_at numbered_directory (storage_at example_env ''note_2.txt'') = None
   \<and> write example_env numbered_directory ''note'' (Some ''world'') False True None
       = Some (Inl IsADirectoryError, numbered_directory)"
  by code_simp

lemma one_note_well_formed: "well_formed one_note"
  by (rule well_formedI) code_simp

theorem write_keeps_existing_witness:
  "write_name example_env ''note'' (Some ''world'') = Inr (''world'', Path ''note'', Some ''.txt'')
   \<and> is_file one_note (storage_at example_env (to_str (Path ''note'') @ fmt (Some ''.txt'')))
   \<and> plain_path (joinpath (path example_env) (Path (to_str (Path ''note'') @ fmt (Some ''.txt''))))
   \<and> CHR ''/'' \<notin> set (fmt (Some ''.txt''))
   \<and> well_formed one_note
   \<and> str_encode example_env (py_or None (default_encoding example_env)) ''world'' = Inr ''world''
   \<and> write example_env one_note ''note'' (Some ''world'') False True None
       = Some (Inr ''note_1.txt'',
               one_note @ [([''work'', ''storage'', ''note_1.txt''], File ''world'')])
   \<and> (\<exists>n fs'. 1 \<le> n
         \<and> write example_env one_note ''note'' (Some ''world'') False True None
             = Some (Inr (numbered (Path ''note'') n (Some ''.txt'')), fs')
         \<and> node_at fs' (storage_at example_env (numbered (Path ''note'') n (Some ''.txt'')))
             = Some (File ''world'')
         \<and> node_at fs' (storage_at example_env (to_str (Path ''note'') @ fmt (Some ''.txt'')))
             = node_at one_note (storage_at example_env (to_str (Path ''note'') @ fmt (Some ''.txt''))))"
proof -
  let ?T = "storage_at example_env (to_str (Path ''note'') @ fmt (Some ''.txt''))"
  let ?w = "write example_env one_note ''note'' (Some ''world'') False True None"
  have nm: "write_name example_env ''note'' (Some ''world'')
            = Inr (''world'', Path ''note'', Some ''.txt'')"
    by code_simp
  have ex: "is_file one_note ?T"
    by code_simp
  have pl: "plain_path (joinpath (path example_env) (Path (to_str (Path ''note'') @ fmt (Some ''.txt''))))"
    by code_simp
  have sl: "CHR ''/'' \<notin> set (fmt (Some ''.txt''))"
    by (simp add: fmt_def)
  have enc: "str_encode example_env (py_or None (default_encoding example_env)) ''world'' = Inr ''world''"
    by code_simp
  have w: "?w = Some (Inr ''note_1.txt'',
               one_note @ [([''work'', ''storage'', ''note_1.txt''], File ''world'')])"
    by code_simp
  from write_keeps_existing [OF nm ex pl sl one_note_well_formed, of True None]
  obtain n where n: "1 \<le> n"
    and fr: "\<And>r fs'. ?w = Some (r, fs') \<Longrightarrow> node_at fs' ?T = node_at one_note ?T"
    and isdir: "is_dir one_note (storage_at example_env (numbered (Path ''note'') n (Some ''.txt'')))
                \<Longrightarrow> ?w = Some (Inl IsADirectoryError, one_note)"
    and good: "\<And>b. \<not> is_dir one_note (storage_at example_env (numbered (Path ''note'') n (Some ''.txt'')))
                \<Longrightarrow> str_encode example_env (py_or None (default_encoding example_env)) ''world'' = Inr b
                \<Longrightarrow> \<exists>fs'. ?w = Some (Inr (numbered (Path ''note'') n (Some ''.txt'')), fs')
                      \<and> (\<forall>q. node_at fs' q =
                            (if q = storage_at example_env (numbered (Path ''note'') n (Some ''.txt''))
                             then Some (File b) else node_at one_note q))"
    by blast
  from isdir w have nd: "\<not> is_dir one_note (storage_at example_env (numbered (Path ''note'') n (Some ''.txt'')))"
    by auto
  from good [OF nd enc] obtain fs' where
    r: "?w = Some (Inr (numbered (Path ''note'') n (Some ''.txt'')), fs')"
    and l: "node_at fs' (storage_at example_env (numbered (Path ''note'') n (Some ''.txt'')))
              = Some (File ''world'')"
    by auto
  from fr [OF r] n r l have "\<exists>n fs'. 1 \<le> n
         \<and> ?w = Some (Inr (numbered (Path ''note'') n (Some ''.txt'')), fs')
         \<and> node_at fs' (storage_at example_env (numbered (Path ''note'') n (Some ''.txt'')))
             = Some (File ''world'')
         \<and> node_at fs' ?T = node_at one_note ?T"
    by blast
  with nm ex pl sl one_note_well_formed enc w show ?thesis
    by blast
qed

subsection \<open>write with a backup\<close>

lemma mkdir_p_files: "mkdir_p fs k = (r, fs') \<Longrightarrow> is_file fs' q \<Longrightarrow> is_file fs q"
  by (cases r) (auto simp: is_file_iff node_at_mkdir_p dest: mkdir_p_error split: if_splits)

lemma write_file_files:
  assumes "write_file e fs file_name c enc = (r, fs')" and "is_file fs' q"
  shows "q = storage_at e file_name \<or> is_file fs q"
proof -
  obtain r1 fs1 where mk: "mkdir_p fs (locate e (parent (joinpath (path e) (Path file_name)))) = (r1, fs1)"
    by (cases "mkdir_p fs (locate e (parent (joinpath (path e) (Path file_name))))")
  show ?thesis
  proof (cases r1)
    case (Inl er)
    with assms(1) mk have "fs' = fs1" by (simp add: write_file_def)
    with assms(2) mkdir_p_files [OF mk] show ?thesis by simp
  next
    case (Inr u)
    obtain r2 fs2 where wt: "write_text e fs1 (storage_at e file_name) c enc = (r2, fs2)"
      by (cases "write_text e fs1 (storage_at e file_name) c enc")
    with assms(1) mk Inr have fs': "fs' = fs2"
      by (auto simp: write_file_def split: sum.splits)
    show ?thesis
    proof (cases "q = storage_at e file_name")
      case True
      then show ?thesis by simp
    next
      case False
      from write_text_frame [OF wt False] assms(2) fs' have "is_file fs1 q"
        by (simp add: is_file_def)
      with mkdir_p_files [OF mk] show ?thesis by simp
    qed
  qed
qed

lemma write_name_content:
  "write_name e name (Some c) = Inr (c', base, ext) \<Longrightarrow>
     c' = c \<and> write_name e name (Some d) = Inr (d, base, ext)"
  by (auto simp: write_name_def Let_def split: sum.splits)

lemma write_rewrite_backup:
  assumes "write_name e name content = Inr (c, base, ext)"
  shows "write e fs name content True True encoding =
     (if is_file fs (storage_at e (to_str base @ fmt ext)) then
        (case first_free e fs base ext 1 of
           None \<Rightarrow> None
         | Some n \<Rightarrow>
             (case rename fs (storage_at e (to_str base @ fmt ext))
                            (storage_at e (numbered base n ext)) of
                (Inl er, fs1) \<Rightarrow> Some (Inl er, fs1)
              | (Inr u, fs1) \<Rightarrow>
                  Some (write_file e fs1 (to_str base @ fmt ext) c
                          (py_or encoding (default_encoding e)))))
      else Some (write_file e fs (to_str base @ fmt ext) c (py_or encoding (default_encoding e))))"
  using assms by (simp add: write_def Let_def split: option.splits)

text \<open>A successful write with both flags set ends in a successful \<open>write_file\<close>.\<close>

lemma write_rewrite_backup_success:
  assumes nm: "write_name e name content = Inr (c, base, ext)"
    and w: "write e fs name content True True encoding = Some (Inr f, fs')"
  shows "f = to_str base @ fmt ext"
    and "\<exists>b. str_encode e (py_or encoding (default_encoding e)) c = Inr b
             \<and> node_at fs' (storage_at e (to_str base @ fmt ext)) = Some (File b)"
proof -
  let ?file = "to_str base @ fmt ext"
  let ?enc = "py_or encoding (default_encoding e)"
  have "\<exists>fsm. write_file e fsm ?file c ?enc = (Inr f, fs')"
  proof (cases "is_file fs (storage_at e ?file)")
    case False
    with w write_rewrite_backup [OF nm, of fs encoding] show ?thesis by auto
  next
    case True
    with w write_rewrite_backup [OF nm, of fs encoding] show ?thesis
      by (auto split: option.splits prod.splits sum.splits)
  qed
  then obtain fsm where wf: "write_file e fsm ?file c ?enc = (Inr f, fs')" ..
  from write_file_success(1) [OF wf] show "f = ?file" .
  from write_file_success(2) [OF wf]
  show "\<exists>b. str_encode e ?enc c = Inr b \<and> node_at fs' (storage_at e ?file) = Some (File b)" .
qed

lemma write_twice_effect:
  assumes nm: "write_name e name (Some c1) = Inr (c, base, ext)"
    and w1: "write e fs name (Some c1) True True encoding = Some (Inr f1, fs1)"
    and w2: "write e fs1 name (Some c2) True True encoding = Some (Inr f2, fs2)"
  shows "\<exists>n b1 b2.
           1 \<le> n \<and> f1 = to_str base @ fmt ext \<and> f2 = to_str base @ fmt ext
         \<and> str_encode e (py_or encoding (default_encoding e)) c1 = Inr b1
         \<and> str_encode e (py_or encoding (default_encoding e)) c2 = Inr b2
         \<and> node_at fs2 (storage_at e (to_str base @ fmt ext)) = Some (File b2)
         \<and> node_at fs2 (storage_at e (numbered base n ext)) = Some (File b1)
         \<and> \<not> is_file fs1 (storage_at e (numbered base n ext))
         \<and> (\<forall>m. 1 \<le> m \<and> m < n \<longrightarrow> is_file fs1 (storage_at e (numbered base m ext)))
         \<and> (\<not> is_file fs (storage_at e (to_str base @ fmt ext))
              \<and> \<not> is_file fs (storage_at e (numbered base 1 ext))
              \<and> storage_at e (numbered base 1 ext) \<noteq> storage_at e (to_str base @ fmt ext)
            \<longrightarrow> n = 1)"
proof -
  let ?file = "to_str base @ fmt ext"
  let ?T = "storage_at e ?file"
  let ?enc = "py_or encoding (default_encoding e)"
  let ?cand = "\<lambda>n. storage_at e (numbered base n ext)"
  from write_name_content [OF nm] have c: "c = c1"
    and nm1: "write_name e name (Some c1) = Inr (c1, base, ext)"
    and nm2: "write_name e name (Some c2) = Inr (c2, base, ext)"
    by auto
  from write_rewrite_backup_success [OF nm1 w1] obtain b1 where
    f1: "f1 = ?file" and b1: "str_encode e ?enc c1 = Inr b1"
    and t1: "node_at fs1 ?T = Some (File b1)"
    by blast
  then have file1: "is_file fs1 ?T" by (simp add: is_file_iff)
  from write_rewrite_backup_success [OF nm2 w2] obtain b2 where
    f2: "f2 = ?file" and b2: "str_encode e ?enc c2 = Inr b2"
    and t2: "node_at fs2 ?T = Some (File b2)"
    by blast
  from w2 write_rewrite_backup [OF nm2, of fs1 encoding] file1
  obtain n u fsr where n: "first_free e fs1 base ext 1 = Some n"
    and rn: "rename fs1 ?T (?cand n) = (Inr u, fsr)"
    and wf: "write_file e fsr ?file c2 ?enc = (Inr f2, fs2)"
    by (auto split: option.splits prod.splits sum.splits)
  note s = first_free_sound [OF n]
  from s file1 have ne: "?T \<noteq> ?cand n" by auto
  from rename_success(1) [OF rn ne] t1 have moved: "node_at fsr (?cand n) = Some (File b1)"
    by simp
  have kept: "node_at fs2 (?cand n) = Some (File b1)"
    using write_file_frame [OF wf, of "?cand n"] moved ne by simp
  have one: "n = 1"
    if fresh: "\<not> is_file fs ?T" "\<not> is_file fs (?cand 1)" "?cand 1 \<noteq> ?T"
  proof (rule ccontr)
    assume "n \<noteq> 1"
    with s have "is_file fs1 (?cand 1)" by auto
    moreover from w1 write_rewrite_backup [OF nm1, of fs encoding] fresh(1)
    have "write_file e fs ?file c1 ?enc = (Inr f1, fs1)" by simp
    ultimately have "?cand 1 = ?T \<or> is_file fs (?cand 1)"
      by (intro write_file_files)
    with fresh show False by simp
  qed
  from s f1 f2 b1 b2 t2 kept one show ?thesis
    by blast
qed

lemma write_returns:
  assumes "write_name e name content = Inr (c, base, ext)"
    and "CHR ''/'' \<notin> set (fmt ext)"
  shows "write e fs name content rewrite backup encoding \<noteq> None"
proof -
  from first_free_total [OF assms(2), of e fs base 1]
  obtain n where "first_free e fs base ext 1 = Some n" ..
  with assms(1) show ?thesis
    by (auto simp: write_def Let_def split: prod.splits sum.splits)
qed

text \<open>
  C2, as amended. Two successful calls of \<open>write\<close> with the same name, both flags set,
  content \<open>c1\<close> and then \<open>c2\<close>, leave \<open>c2\<close> (encoded) at the original name and
  \<open>c1\<close> at the first free numbered sibling \<open>base_n ext\<close>: the least \<open>n \<ge> 1\<close> whose
  candidate is not a regular file after the first call. That is \<open>n = 1\<close> when neither
  the original name nor \<open>base_1 ext\<close> was a regular file before the first call. Each call
  returns (the loop ends) when the extension holds no slash.
\<close>

theorem write_twice_backup:
  assumes nm: "write_name e name (Some c1) = Inr (c, base, ext)"
  shows "(CHR ''/'' \<notin> set (fmt ext) \<longrightarrow>
            (\<forall>fs0 c0. write e fs0 name (Some c0) True True encoding \<noteq> None))
       \<and> (\<forall>f1 fs1 f2 fs2.
            write e fs name (Some c1) True True encoding = Some (Inr f1, fs1)
            \<and> write e fs1 name (Some c2) True True encoding = Some (Inr f2, fs2) \<longrightarrow>
            (\<exists>n b1 b2.
               1 \<le> n \<and> f1 = to_str base @ fmt ext \<and> f2 = to_str base @ fmt ext
             \<and> str_encode e (py_or encoding (default_encoding e)) c1 = Inr b1
             \<and> str_encode e (py_or encoding (default_encoding e)) c2 = Inr b2
             \<and> node_at fs2 (storage_at e (to_str base @ fmt ext)) = Some (File b2)
             \<and> node_at fs2 (storage_at e (numbered base n ext)) = Some (File b1)
             \<and> \<not> is_file fs1 (storage_at e (numbered base n ext))
             \<and> (\<forall>m. 1 \<le> m \<and> m < n \<longrightarrow> is_file fs1 (storage_at e (numbered base m ext)))
             \<and> (\<not> is_file fs (storage_at e (to_str base @ fmt ext))
                  \<and> \<not> is_file fs (storage_at e (numbered base 1 ext))
                  \<and> storage_at e (numbered base 1 ext) \<noteq> storage_at e (to_str base @ fmt ext)
                \<longrightarrow> n = 1)))"
proof (intro conjI allI impI)
  fix fs0 c0
  assume "CHR ''/'' \<notin> set (fmt ext)"
  moreover from write_name_content [OF nm, of c0]
  have "write_name e name (Some c0) = Inr (c0, base, ext)" by simp
  ultimately show "write e fs0 name (Some c0) True True encoding \<noteq> None"
    by (intro write_returns)
next
  fix f1 fs1 f2 fs2
  assume "write e fs name (Some c1) True True encoding = Some (Inr f1, fs1)
            \<and> write e fs1 name (Some c2) True True encoding = Some (Inr f2, fs2)"
  then have w1: "write e fs name (Some c1) True True encoding = Some (Inr f1, fs1)"
    and w2: "write e fs1 name (Some c2) True True encoding = Some (Inr f2, fs2)"
    by simp_all
  from write_twice_effect [OF nm w1 w2]
  show "\<exists>n b1 b2.
               1 \<le> n \<and> f1 = to_str base @ fmt ext \<and> f2 = to_str base @ fmt ext
             \<and> str_encode e (py_or encoding (default_encoding e)) c1 = Inr b1
             \<and> str_encode e (py_or encoding (default_encoding e)) c2 = Inr b2
             \<and> node_at fs2 (storage_at e (to_str base @ fmt ext)) = Some (File b2)
             \<and> node_at fs2 (storage_at e (numbered base n ext)) = Some (File b1)
             \<and> \<not> is_file fs1 (storage_at e (numbered base n ext))
             \<and> (\<forall>m. 1 \<le> m \<and> m < n \<longrightarrow> is_file fs1 (storage_at e (numbered base m ext)))
             \<and> (\<not> is_file fs (storage_at e (to_str base @ fmt ext))
                  \<and> \<not> is_file fs (storage_at e (numbered base 1 ext))
                  \<and> storage_at e (numbered base 1 ext) \<noteq> storage_at e (to_str base @ fmt ext)
                \<longrightarrow> n = 1)" .
qed

text \<open>
  The claim names the sibling \<open>base_1 ext\<close> for every name. Where that sibling is taken
  before the first call, the first content ends at \<open>base_2 ext\<close> and the sibling keeps
  what it had.
\<close>

theorem write_twice_backup_counterexample:
  "write example_env taken_sibling ''note'' (Some ''one'') True True None
     = Some (Inr ''note.txt'',
         [([''work''], Dir), ([''work'', ''storage''], Dir),
          ([''work'', ''storage'', ''note_1.txt''], File ''old''),
          ([''work'', ''storage'', ''note.txt''], File ''one'')])
   \<and> write example_env
         [([''work''], Dir), ([''work'', ''storage''], Dir),
          ([''work'', ''storage'', ''note_1.txt''], File ''old''),
          ([''work'', ''storage'', ''note.txt''], File ''one'')]
         ''note'' (Some ''two'') True True None
     = Some (Inr ''note.txt'',
         [([''work''], Dir), ([''work'', ''storage''], Dir),
          ([''work'', ''storage'', ''note_1.txt''], File ''old''),
          ([''work'', ''storage'', ''note_2.txt''], File ''one''),
          ([''work'', ''storage'', ''note.txt''], File ''two'')])"
  by code_simp

theorem write_twice_backup_witness:
  "write_name example_env ''note'' (Some ''hello'') = Inr (''hello'', Path ''note'', Some ''.txt'')
   \<and> write example_env empty_storage ''note'' (Some ''hello'') True True None
       = Some (Inr ''note.txt'', one_note)
   \<and> write example_env one_note ''note'' (Some ''world'') True True None
       = Some (Inr ''note.txt'',
           [([''work''], Dir), ([''work'', ''storage''], Dir),
            ([''work'', ''storage'', ''note_1.txt''], File ''hello''),
            ([''work'', ''storage'', ''note.txt''], File ''world'')])
   \<and> \<not> is_file empty_storage (storage_at example_env (to_str (Path ''note'') @ fmt (Some ''.txt'')))
   \<and> \<not> is_file empty_storage (storage_at example_env (numbered (Path ''note'') 1 (Some ''.txt'')))
   \<and> storage_at example_env (numbered (Path ''note'') 1 (Some ''.txt''))
       \<noteq> storage_at example_env (to_str (Path ''note'') @ fmt (Some ''.txt''))
   \<and> (\<exists>b1 b2. str_encode example_env (py_or None (default_encoding example_env)) ''hello'' = Inr b1
         \<and> str_encode example_env (py_or None (default_encoding example_env)) ''world'' = Inr b2
         \<and> node_at [([''work''], Dir), ([''work'', ''storage''], Dir),
                     ([''work'', ''storage'', ''note_1.txt''], File ''hello''),
                     ([''work'', ''storage'', ''note.txt''], File ''world'')]
              (storage_at example_env (to_str (Path ''note'') @ fmt (Some ''.txt''))) = Some (File b2)
         \<and> node_at [([''work''], Dir), ([''work'', ''storage''], Dir),
                     ([''work'', ''storage'', ''note_1.txt''], File ''hello''),
                     ([''work'', ''storage'', ''note.txt''], File ''world'')]
              (storage_at example_env (numbered (Path ''note'') 1 (Some ''.txt''))) = Some (File b1))"
proof -
  have nm: "write_name example_env ''note'' (Some ''hello'')
            = Inr (''hello'', Path ''note'', Some ''.txt'')"
    by code_simp
  have w1: "write example_env empty_storage ''note'' (Some ''hello'') True True None
       = Some (Inr ''note.txt'', one_note)"
    by code_simp
  have w2: "write example_env one_note ''note'' (Some ''world'') True True None
       = Some (Inr ''note.txt'',
           [([''work''], Dir), ([''work'', ''storage''], Dir),
            ([''work'', ''storage'', ''note_1.txt''], File ''hello''),
            ([''work'', ''storage'', ''note.txt''], File ''world'')])"
    by code_simp
  have f1: "\<not> is_file empty_storage (storage_at example_env (to_str (Path ''note'') @ fmt (Some ''.txt'')))"
    by code_simp
  have f2: "\<not> is_file empty_storage (storage_at example_env (numbered (Path ''note'') 1 (Some ''.txt'')))"
    by code_simp
  have f3: "storage_at example_env (numbered (Path ''note'') 1 (Some ''.txt''))
       \<noteq> storage_at example_env (to_str (Path ''note'') @ fmt (Some ''.txt''))"
    by code_simp
  from write_twice_backup [OF nm, THEN conjunct2, rule_format, OF conjI [OF w1 w2]]
    f1 f2 f3 nm w1 w2
  show ?thesis
    by blast
qed

subsection \<open>write, then read\<close>

lemma universal_newlines_id: "CHR 0x0D \<notin> set s \<Longrightarrow> universal_newlines s = s"
  by (induction s rule: universal_newlines.induct) auto

lemma rfind_none: "c \<notin> set s \<Longrightarrow> rfind c s = None"
proof -
  assume "c \<notin> set s"
  then have tw: "takeWhile (\<lambda>x. x \<noteq> c) (rev s) = rev s"
    by (auto simp: takeWhile_eq_all_conv)
  show ?thesis unfolding rfind_def Let_def tw by simp
qed

lemma suffix_of_no_dot:
  assumes "CHR ''.'' \<notin> set name"
  shows "suffix_of (Path name) = []"
proof (cases "parts (Path name) = []")
  case True
  then show ?thesis by (simp add: suffix_of_def path_name_def rfind_def)
next
  case False
  then have "last (parts (Path name)) \<in> set (split_on CHR ''/'' name)"
    using last_in_set [OF False] by (auto simp: Path_def)
  from split_on_subset [OF this] assms have "CHR ''.'' \<notin> set (last (parts (Path name)))"
    by auto
  with False show ?thesis
    by (simp add: suffix_of_def path_name_def rfind_none)
qed

lemma write_name_no_dot:
  assumes "CHR ''.'' \<notin> set name"
    and "write_name e name (Some content) = Inr (c, base, ext)"
  shows "c = content" and "base = Path name" and "ext = default_ext e"
proof -
  from assms(2) have ne: "path_name (Path name) \<noteq> []"
    by (auto simp: write_name_def with_suffix_def Let_def split: if_splits)
  then have ps: "parts (Path name) \<noteq> []" by (auto simp: path_name_def)
  have "with_suffix (Path name) [] = Inr (Path name)"
    using ne ps by (simp add: with_suffix_def Let_def suffix_of_no_dot [OF assms(1)] path_name_def)
  with assms(2) show "c = content" and "base = Path name" and "ext = default_ext e"
    by (simp_all add: write_name_def suffix_of_no_dot [OF assms(1)])
qed

lemma write_read_effect:
  assumes rel: "\<not> startswith name ''/''" and nodot: "CHR ''.'' \<notin> set name"
    and norm: "to_str (Path name) = name"
    and rt: "round_trips e content"
    and w: "write e fs name (Some content) True True None = Some (Inr fname, fs')"
  shows "fname = name @ fmt (default_ext e)
       \<and> is_file fs' (storage_at e (name @ fmt (default_ext e)))
       \<and> Path (read_target e fs' name) = joinpath (path e) (Path (name @ fmt (default_ext e)))
       \<and> read e fs' name None = Inr content"
proof -
  let ?ext = "fmt (default_ext e)"
  let ?T = "storage_at e (name @ ?ext)"
  from w obtain c base ext where nm: "write_name e name (Some content) = Inr (c, base, ext)"
    by (cases "write_name e name (Some content)") (auto simp: write_def Let_def)
  note parts = write_name_no_dot [OF nodot nm]
  from nm parts have nm': "write_name e name (Some content) = Inr (content, Path name, default_ext e)"
    by simp
  from write_rewrite_backup_success [OF nm' w] norm obtain b where
    f: "fname = name @ ?ext"
    and b: "str_encode e (py_or None (default_encoding e)) content = Inr b"
    and t: "node_at fs' ?T = Some (File b)"
    by auto
  from b have b': "str_encode e (default_encoding e) content = Inr b"
    by (simp add: py_or_def)
  from t have ex: "exists e fs' (name @ ?ext)"
    by (simp add: exists_def path_exists_def)
  from nodot have nds: "\<not> startswith name ''./''"
    by (cases name) (auto simp: startswith_def)
  from read_target_plain [OF rel nds nodot, of e fs'] ex
  have target: "Path (read_target e fs' name) = joinpath (path e) (Path (name @ ?ext))"
    by simp
  then have loc: "locate e (Path (read_target e fs' name)) = ?T"
    by (simp add: storage_at_def)
  have bytes: "read_bytes fs' ?T = Inr b"
    using t by (simp add: read_bytes_def)
  have "read e fs' name None = Inr content"
  proof (cases "default_encoding e")
    case None
    with rt b' obtain enc where "chardet_detect e b = Some enc" "bytes_decode e enc b = Inr content"
      by (auto simp: round_trips_def)
    with None loc bytes show ?thesis
      by (simp add: read_def py_or_def Let_def)
  next
    case (Some enc)
    with rt b' have "bytes_decode e enc b = Inr content" "CHR 0x0D \<notin> set content"
      by (auto simp: round_trips_def)
    with Some loc bytes show ?thesis
      by (simp add: read_def py_or_def Let_def universal_newlines_id)
  qed
  with f t target show ?thesis
    by (simp add: is_file_iff)
qed

text \<open>
  C6, as amended. Take a relative name without a dot, written as \<open>pathlib\<close> prints it
  (no trailing slash, no empty component), and a content that makes the round trip
  through the codecs. If \<open>write(name, content)\<close> returns a name, that name is the given
  one with the default extension, and \<open>read(name)\<close> then opens the same file below the
  root and returns exactly the content. The call of \<open>write\<close> returns (its loop ends)
  when the default extension holds no slash.
\<close>

theorem write_then_read:
  assumes rel: "\<not> startswith name ''/''" and nodot: "CHR ''.'' \<notin> set name"
    and norm: "to_str (Path name) = name"
    and rt: "round_trips e content"
  shows "(CHR ''/'' \<notin> set (fmt (default_ext e)) \<longrightarrow>
            write e fs name (Some content) True True None \<noteq> None)
       \<and> (\<forall>fname fs'.
            write e fs name (Some content) True True None = Some (Inr fname, fs') \<longrightarrow>
              fname = name @ fmt (default_ext e)
            \<and> is_file fs' (storage_at e (name @ fmt (default_ext e)))
            \<and> Path (read_target e fs' name)
                = joinpath (path e) (Path (name @ fmt (default_ext e)))
            \<and> read e fs' name None = Inr content)"
proof (intro conjI allI impI)
  assume sl: "CHR ''/'' \<notin> set (fmt (default_ext e))"
  show "write e fs name (Some content) True True None \<noteq> None"
  proof (cases "write_name e name (Some content)")
    case (Inl er)
    then show ?thesis by (simp add: write_def Let_def)
  next
    case (Inr x)
    then obtain c base ext where nm: "write_name e name (Some content) = Inr (c, base, ext)"
      by (cases x) auto
    from write_name_no_dot(3) [OF nodot nm] sl have "CHR ''/'' \<notin> set (fmt ext)" by simp
    with nm show ?thesis by (intro write_returns)
  qed
next
  fix fname fs'
  assume w: "write e fs name (Some content) True True None = Some (Inr fname, fs')"
  from write_read_effect [OF rel nodot norm rt w]
  show "fname = name @ fmt (default_ext e)"
    and "is_file fs' (storage_at e (name @ fmt (default_ext e)))"
    and "Path (read_target e fs' name) = joinpath (path e) (Path (name @ fmt (default_ext e)))"
    and "read e fs' name None = Inr content"
    by simp_all
qed

text \<open>
  For every text content the claim fails: with a default encoding configured the file is
  read in text mode, and a carriage return comes back as a line feed.
\<close>

theorem write_then_read_counterexample:
  "write example_env empty_storage ''note'' (Some [CHR ''a'', CHR 0x0D, CHR 0x0A, CHR ''b'']) True True None
     = Some (Inr ''note.txt'',
         empty_storage @ [([''work'', ''storage'', ''note.txt''],
                           File [CHR ''a'', CHR 0x0D, CHR 0x0A, CHR ''b''])])
   \<and> read example_env
        (empty_storage @ [([''work'', ''storage'', ''note.txt''],
                           File [CHR ''a'', CHR 0x0D, CHR 0x0A, CHR ''b''])])
        ''note'' None
     = Inr [CHR ''a'', CHR 0x0A, CHR ''b'']"
  by code_simp

text \<open>
  The normal form is needed as well: \<open>write\<close> drops a trailing slash before it appends
  the extension, \<open>read\<close> does not.
\<close>

lemma trailing_slash_breaks_round_trip:
  "write example_env empty_storage ''a/'' (Some ''hello'') True True None
     = Some (Inr ''a.txt'', empty_storage @ [([''work'', ''storage'', ''a.txt''], File ''hello'')])
   \<and> read example_env (empty_storage @ [([''work'', ''storage'', ''a.txt''], File ''hello'')])
        ''a/'' None
     = Inl FileNotFoundError"
  by code_simp

theorem write_then_read_witness:
  "\<not> startswith ''note'' ''/'' \<and> CHR ''.'' \<notin> set ''note'' \<and> to_str (Path ''note'') = ''note''
   \<and> round_trips example_env ''hello''
   \<and> write example_env empty_storage ''note'' (Some ''hello'') True True None
       = Some (Inr ''note.txt'', one_note)
   \<and> ''note.txt'' = ''note'' @ fmt (default_ext example_env)
   \<and> read example_env one_note ''note'' None = Inr ''hello''"
proof -
  have a: "\<not> startswith ''note'' ''/''" "CHR ''.'' \<notin> set ''note''"
    by (simp_all add: startswith_def)
  have n: "to_str (Path ''note'') = ''note''"
    by code_simp
  have enc: "default_encoding example_env = Some ''ascii''"
    by code_simp
  have cod: "str_encode example_env (Some ''ascii'') ''hello'' = Inr ''hello''"
    "bytes_decode example_env ''ascii'' ''hello'' = Inr ''hello''"
    by code_simp+
  have rt: "round_trips example_env ''hello''"
    by (simp add: round_trips_def enc cod)
  have w: "write example_env empty_storage ''note'' (Some ''hello'') True True None
       = Some (Inr ''note.txt'', one_note)"
    by code_simp
  from write_then_read [OF a n rt, THEN conjunct2, rule_format, OF w]
    a n rt w
  show ?thesis
    by simp
qed

subsection \<open>copy: one entry\<close>

lemma apart: "\<not> prefix s d \<Longrightarrow> \<not> prefix d s \<Longrightarrow> \<not> prefix d (s @ r)"
  using prefix_same_cases [of d "s @ r" s] by auto

lemma prefix_butlast: "k \<noteq> [] \<Longrightarrow> prefix q (butlast k) \<longleftrightarrow> strict_prefix q k"
  by (cases k rule: rev_cases) (auto simp: prefix_snoc strict_prefix_def)

lemma copy2_source:
  assumes "copy2 fs s d = (Inr u, fs')"
  shows "\<exists>b. node_at fs s = Some (File b)"
proof -
  from assms obtain b where "read_bytes fs s = Inr b"
    by (auto simp: copy2_def Let_def split: if_splits sum.splits)
  then show ?thesis
    by (auto simp: read_bytes_def split: option.splits node.splits)
qed

lemma copy2_effect:
  assumes "copy2 fs s d = (Inr u, fs')" and "\<not> is_dir fs d"
  shows "\<exists>b. node_at fs s = Some (File b) \<and> d \<noteq> [] \<and> is_dir fs (butlast d)
           \<and> (\<forall>q. node_at fs' q = (if q = d then Some (File b) else node_at fs q))"
proof -
  from assms obtain b where rb: "read_bytes fs s = Inr b"
    by (auto simp: copy2_def Let_def split: if_splits sum.splits)
  then have src: "node_at fs s = Some (File b)"
    by (auto simp: read_bytes_def split: option.splits node.splits)
  from assms rb obtain fs1 where cr: "create_file fs d = Inr fs1"
    and fs': "fs' = AList.update d (File b) fs1"
    by (auto simp: copy2_def Let_def split: if_splits sum.splits)
  note cf = create_file_lookup [OF cr]
  have "node_at fs' q = (if q = d then Some (File b) else node_at fs q)" for q
    using cf(1) cf(4) [of q] by (simp add: fs' node_at_update)
  with src cf(1,3) show ?thesis by blast
qed

lemma copy2_well_formed:
  assumes wf: "well_formed fs" and c: "copy2 fs s d = (Inr u, fs')" and nd: "\<not> is_dir fs d"
  shows "well_formed fs'"
proof -
  from copy2_effect [OF c nd] obtain b where d: "d \<noteq> []" and p: "is_dir fs (butlast d)"
    and look: "\<And>q. node_at fs' q = (if q = d then Some (File b) else node_at fs q)"
    by blast
  show ?thesis
    unfolding well_formed_def
  proof (intro allI impI)
    fix q assume q: "q \<noteq> []" "node_at fs' q \<noteq> None"
    have "is_dir fs (butlast q)"
    proof (cases "q = d")
      case True
      with p show ?thesis by simp
    next
      case False
      with q look have "node_at fs q \<noteq> None" by simp
      with wf q(1) show ?thesis by (simp add: well_formed_def)
    qed
    moreover from this nd have "butlast q \<noteq> d" by auto
    ultimately show "is_dir fs' (butlast q)"
      by (simp add: is_dir_def look)
  qed
qed

lemma copy_inv_source:
  assumes "copy_inv s d fs0 cur" and "\<not> prefix s d" and "\<not> prefix d s"
  shows "node_at cur (s @ r) = node_at fs0 (s @ r)"
proof -
  from apart [OF assms(2,3)] have "\<not> strict_prefix d (s @ r)"
    by (simp add: strict_prefix_def)
  with assms(1) show ?thesis by (simp add: copy_inv_def)
qed

lemma copy_entry_effect:
  assumes inv: "copy_inv s d fs0 cur"
    and ap: "\<not> prefix s d" "\<not> prefix d s"
    and r: "r \<noteq> []"
    and st: "copy_entry cur s d r = (Inr u, cur')"
  shows "node_at fs0 (s @ r) \<noteq> None"
    and "node_at fs0 (s @ r) = Some Dir \<Longrightarrow> node_at cur' (d @ r) = Some Dir"
    and "node_at fs0 (s @ r) = Some (File b) \<Longrightarrow> node_at cur' (d @ r) = Some (File b)"
    and "q \<noteq> d @ r \<Longrightarrow> node_at cur' q =
           (if node_at cur q = None \<and> strict_prefix q (d @ r) then Some Dir else node_at cur q)"
    and "well_formed cur'"
proof -
  let ?k = "d @ r"
  from r have k: "?k \<noteq> []" by simp
  from inv have wf: "well_formed cur" by (simp add: copy_inv_def)
  note src = copy_inv_source [OF inv ap, of r]
  have all:
    "node_at fs0 (s @ r) \<noteq> None
     \<and> (node_at fs0 (s @ r) = Some Dir \<longrightarrow> node_at cur' ?k = Some Dir)
     \<and> (\<forall>b. node_at fs0 (s @ r) = Some (File b) \<longrightarrow> node_at cur' ?k = Some (File b))
     \<and> (\<forall>q. q \<noteq> ?k \<longrightarrow> node_at cur' q =
           (if node_at cur q = None \<and> strict_prefix q ?k then Some Dir else node_at cur q))
     \<and> well_formed cur'"
  proof (cases "is_dir cur (s @ r)")
    case True
    with st have mk: "mkdir_p cur ?k = (Inr u, cur')" by (simp add: copy_entry_def)
    from True src have s0: "node_at fs0 (s @ r) = Some Dir" by (simp add: is_dir_def)
    have tgt: "node_at cur' ?k = Some Dir"
      using mkdir_p_target [OF mk] by (simp add: is_dir_def)
    have rest: "node_at cur' q =
           (if node_at cur q = None \<and> strict_prefix q ?k then Some Dir else node_at cur q)"
      if "q \<noteq> ?k" for q
    proof (cases "is_dir cur ?k")
      case False
      with that show ?thesis
        by (auto simp: node_at_mkdir_p [OF mk] strict_prefix_def)
    next
      case dir: True
      then have ex: "node_at cur ?k \<noteq> None" by (simp add: is_dir_def)
      have "node_at cur q \<noteq> None" if "strict_prefix q ?k"
        using well_formed_above [OF wf ex, of q] that by (auto simp: is_dir_def strict_prefix_def)
      with dir show ?thesis
        by (auto simp: node_at_mkdir_p [OF mk])
    qed
    from s0 tgt rest mkdir_p_well_formed [OF wf mk] show ?thesis by simp
  next
    case False
    with st obtain u1 cur1 where mk: "mkdir_p cur (butlast ?k) = (Inr u1, cur1)"
      and cp: "copy2 cur1 (s @ r) ?k = (Inr u, cur')"
      by (auto simp: copy_entry_def split: prod.splits sum.splits)
    from copy2_source [OF cp] obtain b where b1: "node_at cur1 (s @ r) = Some (File b)" ..
    then have "is_file cur1 (s @ r)" by (simp add: is_file_iff)
    from mkdir_p_files [OF mk this] have "node_at cur (s @ r) \<noteq> None"
      by (auto simp: is_file_iff)
    from mkdir_p_keeps [OF mk this] b1 have bc: "node_at cur (s @ r) = Some (File b)" by simp
    with src have s0: "node_at fs0 (s @ r) = Some (File b)" by simp
    then have "is_file fs0 (s @ r)" by (simp add: is_file_iff)
    with inv have nd: "\<not> is_dir cur ?k" by (simp add: copy_inv_def)
    have same: "node_at cur1 ?k = node_at cur ?k"
      using k by (simp add: node_at_mkdir_p [OF mk] prefix_butlast)
    with nd have nd1: "\<not> is_dir cur1 ?k" by (simp add: is_dir_def)
    from copy2_effect [OF cp nd1] b1 have
      look: "\<And>q. node_at cur' q = (if q = ?k then Some (File b) else node_at cur1 q)"
      by auto
    have rest: "node_at cur' q =
           (if node_at cur q = None \<and> strict_prefix q ?k then Some Dir else node_at cur q)"
      if "q \<noteq> ?k" for q
    proof (cases "is_dir cur (butlast ?k)")
      case False
      with that k show ?thesis
        by (auto simp: look node_at_mkdir_p [OF mk] prefix_butlast)
    next
      case dir: True
      then have ex: "node_at cur (butlast ?k) \<noteq> None" by (simp add: is_dir_def)
      have "node_at cur q \<noteq> None" if "strict_prefix q ?k"
      proof -
        from that k have "prefix q (butlast ?k)" by (simp add: prefix_butlast)
        from well_formed_above [OF wf ex this] ex show ?thesis
          by (auto simp: is_dir_def)
      qed
      with dir that show ?thesis
        by (auto simp: look node_at_mkdir_p [OF mk])
    qed
    have wf1: "well_formed cur1" using mkdir_p_well_formed [OF wf mk] .
    from s0 look rest copy2_well_formed [OF wf1 cp nd1] show ?thesis by simp
  qed
  from all show "node_at fs0 (s @ r) \<noteq> None"
    and "node_at fs0 (s @ r) = Some Dir \<Longrightarrow> node_at cur' (d @ r) = Some Dir"
    and "node_at fs0 (s @ r) = Some (File b) \<Longrightarrow> node_at cur' (d @ r) = Some (File b)"
    and "q \<noteq> d @ r \<Longrightarrow> node_at cur' q =
           (if node_at cur q = None \<and> strict_prefix q (d @ r) then Some Dir else node_at cur q)"
    and "well_formed cur'"
    by blast+
qed

subsection \<open>copy: the loop\<close>

lemma below_source_exists:
  assumes wf0: "well_formed fs0" and f: "is_file fs0 (s @ r0)"
    and ex: "node_at fs0 (s @ r) \<noteq> None" and sp: "strict_prefix r0 r"
  shows False
proof -
  from sp have "prefix (s @ r0) (s @ r)" "s @ r0 \<noteq> s @ r"
    by (auto simp: strict_prefix_def)
  with well_formed_above [OF wf0 ex, of "s @ r0"] have "is_dir fs0 (s @ r0)" by simp
  with f show False by (auto dest: is_file_not_dir)
qed

lemma copy_entry_inv:
  assumes inv: "copy_inv s d fs0 cur"
    and ap: "\<not> prefix s d" "\<not> prefix d s"
    and wf0: "well_formed fs0"
    and r: "r \<noteq> []"
    and st: "copy_entry cur s d r = (Inr u, cur')"
  shows "copy_inv s d fs0 cur'"
proof -
  note eff = copy_entry_effect [OF inv ap r st]
  from inv have wf: "well_formed cur" and dd: "is_dir cur d"
    and out: "\<And>k. \<not> strict_prefix d k \<Longrightarrow> node_at cur k = node_at fs0 k"
    and img: "\<And>r. is_file fs0 (s @ r) \<Longrightarrow> \<not> is_dir cur (d @ r)"
    by (auto simp: copy_inv_def)
  from dd have dex: "node_at cur d \<noteq> None" by (simp add: is_dir_def)
  have above: "node_at cur q \<noteq> None" if "prefix q d" for q
    using well_formed_above [OF wf dex that] dex by (auto simp: is_dir_def)
  have keep_out: "node_at cur' k = node_at cur k" if "\<not> strict_prefix d k" for k
  proof -
    from that r have ne: "k \<noteq> d @ r" by (auto simp: strict_prefix_def)
    have "node_at cur k \<noteq> None" if sp: "strict_prefix k (d @ r)"
    proof -
      from sp have "prefix k (d @ r)" by (simp add: strict_prefix_def)
      from prefix_same_cases [OF this, of d] have "prefix k d \<or> prefix d k" by simp
      with \<open>\<not> strict_prefix d k\<close> have "prefix k d" by (auto simp: strict_prefix_def)
      then show ?thesis by (rule above)
    qed
    with eff(4) [OF ne] show ?thesis by auto
  qed
  have "is_dir cur' d"
    using keep_out [of d] dd by (simp add: is_dir_def)
  moreover have "node_at cur' k = node_at fs0 k" if "\<not> strict_prefix d k" for k
    using keep_out [OF that] out [OF that] by simp
  moreover have "\<not> is_dir cur' (d @ r0)" if f: "is_file fs0 (s @ r0)" for r0
  proof (cases "r0 = r")
    case True
    with f eff(3) show ?thesis by (auto simp: is_file_iff is_dir_def)
  next
    case False
    then have ne: "d @ r0 \<noteq> d @ r" by simp
    have "\<not> strict_prefix (d @ r0) (d @ r)"
    proof
      assume "strict_prefix (d @ r0) (d @ r)"
      then have "strict_prefix r0 r" by (auto simp: strict_prefix_def)
      from below_source_exists [OF wf0 f eff(1) this] show False .
    qed
    with eff(4) [OF ne] img [OF f] show ?thesis by (simp add: is_dir_def)
  qed
  ultimately show ?thesis
    using eff(5) by (simp add: copy_inv_def)
qed

lemma copy_entries_inv:
  assumes ap: "\<not> prefix s d" "\<not> prefix d s" and wf0: "well_formed fs0"
  shows "copy_inv s d fs0 cur \<Longrightarrow> \<forall>r \<in> set rs. r \<noteq> [] \<Longrightarrow>
         copy_entries e s d ex rs cur = (Inr u, fin) \<Longrightarrow> copy_inv s d fs0 fin"
proof (induction rs arbitrary: cur)
  case Nil
  then show ?case by simp
next
  case (Cons r rs)
  show ?case
  proof (cases "excluded e ex r")
    case True
    with Cons show ?thesis by simp
  next
    case False
    with Cons.prems(3) obtain u1 cur1 where st: "copy_entry cur s d r = (Inr u1, cur1)"
      and rest: "copy_entries e s d ex rs cur1 = (Inr u, fin)"
      by (auto split: prod.splits sum.splits)
    from Cons.prems(2) have r: "r \<noteq> []" by simp
    from copy_entry_inv [OF Cons.prems(1) ap wf0 r st] Cons.IH [OF _ _ rest] Cons.prems(2)
    show ?thesis by simp
  qed
qed

text \<open>A node that the loop has put in place stays.\<close>

lemma copy_entries_keeps:
  assumes ap: "\<not> prefix s d" "\<not> prefix d s" and wf0: "well_formed fs0"
  shows "copy_inv s d fs0 cur \<Longrightarrow> \<forall>r \<in> set rs. r \<noteq> [] \<Longrightarrow>
         copy_entries e s d ex rs cur = (Inr u, fin) \<Longrightarrow>
         (is_dir cur q \<longrightarrow> is_dir fin q)
         \<and> (node_at fs0 (s @ r0) = Some (File b) \<and> node_at cur (d @ r0) = Some (File b)
              \<longrightarrow> node_at fin (d @ r0) = Some (File b))"
proof (induction rs arbitrary: cur)
  case Nil
  then show ?case by simp
next
  case (Cons r rs)
  show ?case
  proof (cases "excluded e ex r")
    case True
    with Cons show ?thesis by simp
  next
    case False
    with Cons.prems(3) obtain u1 cur1 where st: "copy_entry cur s d r = (Inr u1, cur1)"
      and rest: "copy_entries e s d ex rs cur1 = (Inr u, fin)"
      by (auto split: prod.splits sum.splits)
    from Cons.prems(2) have r: "r \<noteq> []" and rs: "\<forall>r \<in> set rs. r \<noteq> []" by simp_all
    note inv = Cons.prems(1)
    note eff = copy_entry_effect [OF inv ap r st]
    note inv1 = copy_entry_inv [OF inv ap wf0 r st]
    note ih = Cons.IH [OF inv1 rs rest]
    from inv have img: "\<And>r. is_file fs0 (s @ r) \<Longrightarrow> \<not> is_dir cur (d @ r)"
      by (auto simp: copy_inv_def)
    have dirs: "is_dir cur1 q" if dq: "is_dir cur q"
    proof (cases "q = d @ r")
      case False
      from eff(4) [OF False] dq show ?thesis by (auto simp: is_dir_def)
    next
      case True
      show ?thesis
      proof (cases "node_at fs0 (s @ r)")
        case None
        with eff(1) show ?thesis by simp
      next
        case (Some n)
        show ?thesis
        proof (cases n)
          case Dir
          with Some eff(2) True show ?thesis by (simp add: is_dir_def)
        next
          case (File c)
          with Some have "is_file fs0 (s @ r)" by (simp add: is_file_iff)
          from img [OF this] dq True show ?thesis by simp
        qed
      qed
    qed
    have files: "node_at cur1 (d @ r0) = Some (File b)"
      if "node_at fs0 (s @ r0) = Some (File b)" "node_at cur (d @ r0) = Some (File b)"
    proof (cases "r0 = r")
      case True
      with eff(3) [of b] that(1) show ?thesis by simp
    next
      case False
      then have "d @ r0 \<noteq> d @ r" by simp
      from eff(4) [OF this] that(2) show ?thesis by simp
    qed
    from ih dirs files show ?thesis by blast
  qed
qed

text \<open>Every entry of the list that is not excluded arrives.\<close>

lemma copy_entries_copies:
  assumes ap: "\<not> prefix s d" "\<not> prefix d s" and wf0: "well_formed fs0"
  shows "copy_inv s d fs0 cur \<Longrightarrow> \<forall>r \<in> set rs. r \<noteq> [] \<Longrightarrow>
         copy_entries e s d ex rs cur = (Inr u, fin) \<Longrightarrow>
         r0 \<in> set rs \<Longrightarrow> \<not> excluded e ex r0 \<Longrightarrow>
         (node_at fs0 (s @ r0) = Some Dir \<longrightarrow> is_dir fin (d @ r0))
         \<and> (node_at fs0 (s @ r0) = Some (File b) \<longrightarrow> node_at fin (d @ r0) = Some (File b))"
proof (induction rs arbitrary: cur)
  case Nil
  then show ?case by simp
next
  case (Cons r rs)
  from Cons.prems(2) have r: "r \<noteq> []" and rs: "\<forall>r \<in> set rs. r \<noteq> []" by simp_all
  show ?case
  proof (cases "excluded e ex r")
    case True
    with Cons.prems have "r0 \<in> set rs" and "copy_entries e s d ex rs cur = (Inr u, fin)"
      by auto
    from Cons.IH [OF Cons.prems(1) rs this(2) this(1) Cons.prems(5)] show ?thesis .
  next
    case False
    with Cons.prems(3) obtain u1 cur1 where st: "copy_entry cur s d r = (Inr u1, cur1)"
      and rest: "copy_entries e s d ex rs cur1 = (Inr u, fin)"
      by (auto split: prod.splits sum.splits)
    note inv = Cons.prems(1)
    note eff = copy_entry_effect [OF inv ap r st]
    note inv1 = copy_entry_inv [OF inv ap wf0 r st]
    show ?thesis
    proof (cases "r0 = r")
      case True
      note keep = copy_entries_keeps [OF ap wf0 inv1 rs rest, of "d @ r0" r0 b]
      from eff(2) True have "node_at fs0 (s @ r0) = Some Dir \<Longrightarrow> is_dir cur1 (d @ r0)"
        by (simp add: is_dir_def)
      moreover from eff(3) [of b] True
      have "node_at fs0 (s @ r0) = Some (File b) \<Longrightarrow> node_at cur1 (d @ r0) = Some (File b)"
        by simp
      ultimately show ?thesis using keep by blast
    next
      case False
      with Cons.prems(4) have "r0 \<in> set rs" by simp
      from Cons.IH [OF inv1 rs rest this Cons.prems(5)] show ?thesis .
    qed
  qed
qed

text \<open>The image of an excluded file is not touched.\<close>

lemma copy_entries_skips:
  assumes ap: "\<not> prefix s d" "\<not> prefix d s" and wf0: "well_formed fs0"
    and f: "is_file fs0 (s @ r0)" and x: "excluded e ex r0"
  shows "copy_inv s d fs0 cur \<Longrightarrow> \<forall>r \<in> set rs. r \<noteq> [] \<Longrightarrow>
         copy_entries e s d ex rs cur = (Inr u, fin) \<Longrightarrow>
         node_at fin (d @ r0) = node_at cur (d @ r0)"
proof (induction rs arbitrary: cur)
  case Nil
  then show ?case by simp
next
  case (Cons r rs)
  from Cons.prems(2) have r: "r \<noteq> []" and rs: "\<forall>r \<in> set rs. r \<noteq> []" by simp_all
  show ?case
  proof (cases "excluded e ex r")
    case True
    with Cons show ?thesis by simp
  next
    case False
    with Cons.prems(3) obtain u1 cur1 where st: "copy_entry cur s d r = (Inr u1, cur1)"
      and rest: "copy_entries e s d ex rs cur1 = (Inr u, fin)"
      by (auto split: prod.splits sum.splits)
    note inv = Cons.prems(1)
    note eff = copy_entry_effect [OF inv ap r st]
    note inv1 = copy_entry_inv [OF inv ap wf0 r st]
    from False x have "r0 \<noteq> r" by auto
    then have ne: "d @ r0 \<noteq> d @ r" by simp
    have "\<not> strict_prefix (d @ r0) (d @ r)"
    proof
      assume "strict_prefix (d @ r0) (d @ r)"
      then have "strict_prefix r0 r" by (auto simp: strict_prefix_def)
      from below_source_exists [OF wf0 f eff(1) this] show False .
    qed
    with eff(4) [OF ne] have "node_at cur1 (d @ r0) = node_at cur (d @ r0)" by simp
    with Cons.IH [OF inv1 rs rest] show ?thesis by simp
  qed
qed

subsection \<open>copy of a directory\<close>

lemma rglob_not_Nil: "r \<in> set (rglob fs s) \<Longrightarrow> r \<noteq> []"
  by (auto simp: rglob_def strict_prefix_def prefix_def)

lemma rglob_complete:
  assumes "r \<noteq> []" and "node_at fs (s @ r) \<noteq> None"
  shows "r \<in> set (rglob fs s)"
proof -
  from assms obtain n where "map_of fs (s @ r) = Some n"
    by (auto simp: node_at_def)
  then have "(s @ r, n) \<in> set fs" by (rule map_of_SomeD)
  moreover from assms(1) have "strict_prefix s (s @ r)" by (simp add: strict_prefix_def)
  ultimately have "(s @ r, n) \<in> set (filter (\<lambda>(q, n). strict_prefix s q) fs)" by simp
  then have "(\<lambda>(q, n). drop (length s) q) (s @ r, n) \<in> set (rglob fs s)"
    unfolding rglob_def set_remdups set_map by (rule imageI)
  then show ?thesis by simp
qed

lemma copy_of_directory:
  assumes "is_dir fs (storage_at e src)"
  shows "copy e fs src dest exceptions =
           (case mkdir_p fs (storage_at e dest) of
              (Inl er, fs1) \<Rightarrow> (Inl er, fs1)
            | (Inr u, fs1) \<Rightarrow>
                copy_entries e (storage_at e src) (storage_at e dest) (given exceptions)
                  (rglob fs1 (storage_at e src)) fs1)"
proof -
  have l: "locate e (if is_absolute (Path x) then Path x else joinpath (path e) (Path x))
           = storage_at e x" for x
    by (simp add: storage_at_def joinpath_def)
  show ?thesis
    unfolding copy_def Let_def l using assms by simp
qed

lemma copy_tree_facts:
  assumes wf: "well_formed fs" and dir: "is_dir fs (storage_at e src)"
    and ap: "\<not> prefix (storage_at e src) (storage_at e dest)"
            "\<not> prefix (storage_at e dest) (storage_at e src)"
    and nodir: "\<forall>r. is_file fs (storage_at e src @ r) \<longrightarrow> \<not> is_dir fs (storage_at e dest @ r)"
    and ok: "copy e fs src dest exceptions = (Inr u, fs')"
  shows "well_formed fs'" and "is_dir fs' (storage_at e dest)"
    and "node_at fs' (storage_at e src @ r) = node_at fs (storage_at e src @ r)"
    and "r \<noteq> [] \<Longrightarrow> \<not> excluded e (given exceptions) r \<Longrightarrow>
           node_at fs (storage_at e src @ r) = Some (File b) \<Longrightarrow>
           node_at fs' (storage_at e dest @ r) = Some (File b)"
    and "r \<noteq> [] \<Longrightarrow> \<not> excluded e (given exceptions) r \<Longrightarrow>
           is_dir fs (storage_at e src @ r) \<Longrightarrow> is_dir fs' (storage_at e dest @ r)"
    and "r \<noteq> [] \<Longrightarrow> excluded e (given exceptions) r \<Longrightarrow>
           is_file fs (storage_at e src @ r) \<Longrightarrow>
           node_at fs' (storage_at e dest @ r) = node_at fs (storage_at e dest @ r)"
proof -
  let ?s = "storage_at e src" and ?d = "storage_at e dest"
  let ?ex = "given exceptions"
  from ok copy_of_directory [OF dir, of dest exceptions] obtain u0 fs0 where
    mk: "mkdir_p fs ?d = (Inr u0, fs0)"
    and loop: "copy_entries e ?s ?d ?ex (rglob fs0 ?s) fs0 = (Inr u, fs')"
    by (auto split: prod.splits sum.splits)
  have wf0: "well_formed fs0" using mkdir_p_well_formed [OF wf mk] .
  have d0: "is_dir fs0 ?d" using mkdir_p_target [OF mk] .
  have src0: "node_at fs0 (?s @ q) = node_at fs (?s @ q)" for q
  proof -
    have "\<not> prefix (?s @ q) ?d"
      using ap(1) by (auto simp: prefix_def)
    then show ?thesis by (simp add: node_at_mkdir_p [OF mk])
  qed
  have dst0: "node_at fs0 (?d @ q) = node_at fs (?d @ q)" if "q \<noteq> []" for q
    using that by (simp add: node_at_mkdir_p [OF mk])
  have img0: "\<not> is_dir fs0 (?d @ q)" if f: "is_file fs0 (?s @ q)" for q
  proof (cases "q = []")
    case True
    with f dir src0 [of "[]"] show ?thesis by (auto simp: is_file_iff is_dir_def)
  next
    case False
    from f src0 [of q] have "is_file fs (?s @ q)" by (simp add: is_file_iff)
    with nodir have "\<not> is_dir fs (?d @ q)" by simp
    with dst0 [OF False] show ?thesis by (simp add: is_dir_def)
  qed
  from wf0 d0 img0 have inv0: "copy_inv ?s ?d fs0 fs0"
    by (simp add: copy_inv_def)
  have rs: "\<forall>r \<in> set (rglob fs0 ?s). r \<noteq> []"
    by (auto dest: rglob_not_Nil)
  note inv = copy_entries_inv [OF ap wf0 inv0 rs loop]
  from inv show "well_formed fs'" and "is_dir fs' ?d"
    by (simp_all add: copy_inv_def)
  from copy_inv_source [OF inv ap, of r] src0 [of r]
  show "node_at fs' (?s @ r) = node_at fs (?s @ r)" by simp
  {
    assume r: "r \<noteq> []" and nx: "\<not> excluded e ?ex r"
    {
      assume f: "node_at fs (?s @ r) = Some (File b)"
      with src0 [of r] have f0: "node_at fs0 (?s @ r) = Some (File b)" by simp
      then have "r \<in> set (rglob fs0 ?s)" using r by (intro rglob_complete) simp_all
      from copy_entries_copies [OF ap wf0 inv0 rs loop this nx, of b] f0
      show "node_at fs' (?d @ r) = Some (File b)" by simp
    }
    {
      assume "is_dir fs (?s @ r)"
      with src0 [of r] have f0: "node_at fs0 (?s @ r) = Some Dir" by (simp add: is_dir_def)
      then have "r \<in> set (rglob fs0 ?s)" using r by (intro rglob_complete) simp_all
      from copy_entries_copies [OF ap wf0 inv0 rs loop this nx, of b] f0
      show "is_dir fs' (?d @ r)" by simp
    }
  }
  {
    assume r: "r \<noteq> []" and x: "excluded e ?ex r" and f: "is_file fs (?s @ r)"
    from f src0 [of r] have f0: "is_file fs0 (?s @ r)" by (simp add: is_file_iff)
    from copy_entries_skips [OF ap wf0 f0 x inv0 rs loop] dst0 [OF r]
    show "node_at fs' (?d @ r) = node_at fs (?d @ r)" by simp
  }
qed

lemma rglob_sound: "r \<in> set (rglob fs s) \<Longrightarrow> node_at fs (s @ r) \<noteq> None"
proof -
  assume "r \<in> set (rglob fs s)"
  then obtain q n where qn: "(q, n) \<in> set fs" and sp: "strict_prefix s q"
    and r: "r = drop (length s) q"
    by (auto simp: rglob_def)
  from sp r have q: "q = s @ r" by (auto simp: strict_prefix_def prefix_def)
  from qn have "map_of fs q \<noteq> None"
    by (simp add: map_of_eq_None_iff) (metis fst_conv imageI)
  with q show ?thesis by (simp add: node_at_def)
qed

text \<open>Below the destination, the regular files are images of regular files.\<close>

lemma no_file_on_the_way:
  assumes inv: "copy_inv s d fs0 cur" and wf0: "well_formed fs0"
    and ex: "node_at fs0 (s @ r) \<noteq> None"
    and img: "\<forall>q. q \<noteq> [] \<longrightarrow> is_file cur (d @ q) \<longrightarrow> is_file fs0 (s @ q)"
    and x: "prefix x (d @ r)" and f: "is_file cur x"
  shows "x = d @ r \<and> is_file fs0 (s @ r)"
proof -
  from inv have wf: "well_formed cur" and dd: "is_dir cur d" by (auto simp: copy_inv_def)
  from dd have dex: "node_at cur d \<noteq> None" by (simp add: is_dir_def)
  from prefix_same_cases [OF x, of d] have "prefix x d \<or> prefix d x" by simp
  then show ?thesis
  proof
    assume "prefix x d"
    from well_formed_above [OF wf dex this] dd have "is_dir cur x" by auto
    with f show ?thesis by (auto dest: is_file_not_dir)
  next
    assume "prefix d x"
    then obtain q where q: "x = d @ q" by (auto simp: prefix_def)
    with f dd have qne: "q \<noteq> []" by (auto dest: is_file_not_dir)
    with img f q have f0: "is_file fs0 (s @ q)" by simp
    from x q have pq: "prefix q r" by simp
    show ?thesis
    proof (cases "q = r")
      case True
      with q f0 show ?thesis by simp
    next
      case False
      with pq have "strict_prefix q r" by (simp add: strict_prefix_def)
      from below_source_exists [OF wf0 f0 ex this] show ?thesis ..
    qed
  qed
qed

lemma copy_entry_succeeds:
  assumes inv: "copy_inv s d fs0 cur"
    and ap: "\<not> prefix s d" "\<not> prefix d s"
    and wf0: "well_formed fs0"
    and r: "r \<noteq> []"
    and ex: "node_at fs0 (s @ r) \<noteq> None"
    and img: "\<forall>q. q \<noteq> [] \<longrightarrow> is_file cur (d @ q) \<longrightarrow> is_file fs0 (s @ q)"
  shows "\<exists>cur'. copy_entry cur s d r = (Inr (), cur')"
proof -
  let ?k = "d @ r"
  from r have k: "?k \<noteq> []" by simp
  note src = copy_inv_source [OF inv ap, of r]
  note way = no_file_on_the_way [OF inv wf0 ex img]
  have strict: "\<not> is_file cur x" if "strict_prefix x ?k" for x
    using way [of x] that by (auto simp: strict_prefix_def)
  show ?thesis
  proof (cases "is_dir cur (s @ r)")
    case True
    with src have "\<not> is_file fs0 (s @ r)" by (auto simp: is_dir_def is_file_iff)
    with way [of ?k] have nf: "\<not> is_file cur ?k" by auto
    have "\<not> list_ex (is_file cur) (parents ?k)"
      using strict by (auto simp: list_ex_iff in_parents)
    with nf True show ?thesis
      by (simp add: copy_entry_def mkdir_p_def)
  next
    case False
    have bl: "strict_prefix (butlast ?k) ?k"
      using k prefix_butlast [of ?k "butlast ?k"] by simp
    have nf: "\<not> is_file cur (butlast ?k)" using strict [OF bl] .
    have "\<not> is_file cur x" if "strict_prefix x (butlast ?k)" for x
      using that bl strict [of x] by (meson prefix_order.less_trans)
    then have np: "\<not> list_ex (is_file cur) (parents (butlast ?k))"
      by (auto simp: list_ex_iff in_parents)
    from nf np have "\<exists>cur1. mkdir_p cur (butlast ?k) = (Inr (), cur1)"
      by (simp add: mkdir_p_def)
    then obtain cur1 where mk: "mkdir_p cur (butlast ?k) = (Inr (), cur1)" ..
    from ex src have "node_at cur (s @ r) \<noteq> None" by simp
    with False node_cases [of cur "s @ r"] have "is_file cur (s @ r)" by simp
    then obtain b where b: "node_at cur (s @ r) = Some (File b)"
      by (auto simp: is_file_iff)
    from b src have "node_at fs0 (s @ r) = Some (File b)" by simp
    then have "is_file fs0 (s @ r)" by (simp add: is_file_iff)
    with inv have nd: "\<not> is_dir cur ?k" by (simp add: copy_inv_def)
    have "node_at cur1 ?k = node_at cur ?k"
      using k by (simp add: node_at_mkdir_p [OF mk] prefix_butlast)
    with nd have nd1: "\<not> is_dir cur1 ?k" by (simp add: is_dir_def)
    from b mkdir_p_keeps [OF mk, of "s @ r"] have b1: "node_at cur1 (s @ r) = Some (File b)"
      by simp
    from apart [OF ap, of r] have ne: "s @ r \<noteq> ?k" by auto
    have par: "is_dir cur1 (butlast ?k)" using mkdir_p_target [OF mk] .
    have "\<exists>cur'. copy2 cur1 (s @ r) ?k = (Inr (), cur')"
      using nd1 ne b1 par by (simp add: copy2_def Let_def read_bytes_def create_file_def)
    with False mk show ?thesis
      by (simp add: copy_entry_def)
  qed
qed

lemma copy_entries_succeeds:
  assumes ap: "\<not> prefix s d" "\<not> prefix d s" and wf0: "well_formed fs0"
  shows "copy_inv s d fs0 cur \<Longrightarrow>
         \<forall>r \<in> set rs. r \<noteq> [] \<and> node_at fs0 (s @ r) \<noteq> None \<Longrightarrow>
         \<forall>q. q \<noteq> [] \<longrightarrow> is_file cur (d @ q) \<longrightarrow> is_file fs0 (s @ q) \<Longrightarrow>
         \<exists>fin. copy_entries e s d ex rs cur = (Inr (), fin)"
proof (induction rs arbitrary: cur)
  case Nil
  then show ?case by simp
next
  case (Cons r rs)
  from Cons.prems(2) have r: "r \<noteq> []" and ex: "node_at fs0 (s @ r) \<noteq> None"
    and rs: "\<forall>r \<in> set rs. r \<noteq> [] \<and> node_at fs0 (s @ r) \<noteq> None"
    by simp_all
  show ?case
  proof (cases "excluded e ex r")
    case True
    with Cons.IH [OF Cons.prems(1) rs Cons.prems(3)] show ?thesis by simp
  next
    case False
    note inv = Cons.prems(1)
    from copy_entry_succeeds [OF inv ap wf0 r ex Cons.prems(3)]
    obtain cur1 where st: "copy_entry cur s d r = (Inr (), cur1)" ..
    note eff = copy_entry_effect [OF inv ap r st]
    note inv1 = copy_entry_inv [OF inv ap wf0 r st]
    have img1: "\<forall>q. q \<noteq> [] \<longrightarrow> is_file cur1 (d @ q) \<longrightarrow> is_file fs0 (s @ q)"
    proof (intro allI impI)
      fix q assume q: "q \<noteq> []" and f: "is_file cur1 (d @ q)"
      show "is_file fs0 (s @ q)"
      proof (cases "q = r")
        case True
        from ex obtain n where n: "node_at fs0 (s @ r) = Some n" by auto
        show ?thesis
        proof (cases n)
          case (File b)
          with n True show ?thesis by (simp add: is_file_iff)
        next
          case Dir
          with n eff(2) True f show ?thesis by (simp add: is_file_iff)
        qed
      next
        case False
        then have "d @ q \<noteq> d @ r" by simp
        from eff(4) [OF this] f have "is_file cur (d @ q)"
          by (auto simp: is_file_iff split: if_splits)
        with Cons.prems(3) q show ?thesis by simp
      qed
    qed
    from Cons.IH [OF inv1 rs img1] False st show ?thesis by simp
  qed
qed

lemma copy_fresh_succeeds:
  assumes wf: "well_formed fs" and dir: "is_dir fs (storage_at e src)"
    and ap: "\<not> prefix (storage_at e src) (storage_at e dest)"
            "\<not> prefix (storage_at e dest) (storage_at e src)"
    and empty: "\<forall>q. q \<noteq> [] \<longrightarrow> node_at fs (storage_at e dest @ q) = None"
    and nofile: "\<not> is_file fs (storage_at e dest)"
                "\<not> list_ex (is_file fs) (parents (storage_at e dest))"
  shows "\<exists>fs'. copy e fs src dest exceptions = (Inr (), fs')"
proof -
  let ?s = "storage_at e src" and ?d = "storage_at e dest"
  from nofile have "\<exists>fs0. mkdir_p fs ?d = (Inr (), fs0)"
    by (simp add: mkdir_p_def)
  then obtain fs0 where mk: "mkdir_p fs ?d = (Inr (), fs0)" ..
  have wf0: "well_formed fs0" using mkdir_p_well_formed [OF wf mk] .
  have d0: "is_dir fs0 ?d" using mkdir_p_target [OF mk] .
  have dst0: "node_at fs0 (?d @ q) = None" if "q \<noteq> []" for q
    using that empty by (simp add: node_at_mkdir_p [OF mk])
  have img0: "\<not> is_dir fs0 (?d @ q)" if f: "is_file fs0 (?s @ q)" for q
  proof (cases "q = []")
    case True
    from dir have "node_at fs ?s \<noteq> None" by (simp add: is_dir_def)
    from mkdir_p_keeps [OF mk this] dir f True show ?thesis
      by (auto simp: is_file_iff is_dir_def)
  next
    case False
    from dst0 [OF False] show ?thesis by (simp add: is_dir_def)
  qed
  from wf0 d0 img0 have inv0: "copy_inv ?s ?d fs0 fs0"
    by (simp add: copy_inv_def)
  have rs: "\<forall>r \<in> set (rglob fs0 ?s). r \<noteq> [] \<and> node_at fs0 (?s @ r) \<noteq> None"
    by (auto dest: rglob_not_Nil rglob_sound)
  have files0: "\<forall>q. q \<noteq> [] \<longrightarrow> is_file fs0 (?d @ q) \<longrightarrow> is_file fs0 (?s @ q)"
    using dst0 by (auto simp: is_file_iff)
  from copy_entries_succeeds [OF ap wf0 inv0 rs files0, of e "given exceptions"] mk
  show ?thesis
    by (auto simp: copy_of_directory [OF dir])
qed

text \<open>
  C8, as amended. Let the source be a directory of a well-formed file system, let the
  paths of source and destination hold no \<open>..\<close>, let source and destination lie apart
  (neither inside the other), and let no file of the source have a directory for its
  image in the destination. Then \<open>copy\<close> into a destination with nothing below it, and
  no regular file at it or above it, returns normally. And whenever \<open>copy\<close> returns
  normally, every file of the source whose path relative to the source matches no pattern
  is at the same relative path below the destination, with its content; the image of a
  file whose relative path matches a pattern is as it was before (absent, if it was
  absent); every directory of the source that matches no pattern is a directory below the
  destination; and the source is unchanged.
\<close>

theorem copy_directory_excluding:
  assumes wf: "well_formed fs" and dir: "is_dir fs (storage_at e src)"
    and ap: "\<not> prefix (storage_at e src) (storage_at e dest)"
            "\<not> prefix (storage_at e dest) (storage_at e src)"
    and nodir: "\<forall>r. is_file fs (storage_at e src @ r) \<longrightarrow> \<not> is_dir fs (storage_at e dest @ r)"
    and plain: "plain_path (joinpath (path e) (Path src))"
               "plain_path (joinpath (path e) (Path dest))"
  shows "((\<forall>q. q \<noteq> [] \<longrightarrow> node_at fs (storage_at e dest @ q) = None)
          \<and> \<not> is_file fs (storage_at e dest)
          \<and> \<not> list_ex (is_file fs) (parents (storage_at e dest))
          \<longrightarrow> (\<exists>fs'. copy e fs src dest exceptions = (Inr (), fs')))
       \<and> (\<forall>fs'. copy e fs src dest exceptions = (Inr (), fs') \<longrightarrow>
            (\<forall>r b. r \<noteq> [] \<and> node_at fs (storage_at e src @ r) = Some (File b) \<longrightarrow>
               (if excluded e (given exceptions) r
                then node_at fs' (storage_at e dest @ r) = node_at fs (storage_at e dest @ r)
                else node_at fs' (storage_at e dest @ r) = Some (File b)))
          \<and> (\<forall>r. r \<noteq> [] \<and> is_dir fs (storage_at e src @ r)
                 \<and> \<not> excluded e (given exceptions) r
               \<longrightarrow> is_dir fs' (storage_at e dest @ r))
          \<and> is_dir fs' (storage_at e dest)
          \<and> (\<forall>r. node_at fs' (storage_at e src @ r) = node_at fs (storage_at e src @ r)))"
proof (intro conjI allI impI)
  assume "(\<forall>q. q \<noteq> [] \<longrightarrow> node_at fs (storage_at e dest @ q) = None)
          \<and> \<not> is_file fs (storage_at e dest)
          \<and> \<not> list_ex (is_file fs) (parents (storage_at e dest))"
  with copy_fresh_succeeds [OF wf dir ap, of exceptions]
  show "\<exists>fs'. copy e fs src dest exceptions = (Inr (), fs')" by blast
next
  fix fs' r b
  assume ok: "copy e fs src dest exceptions = (Inr (), fs')"
    and r: "r \<noteq> [] \<and> node_at fs (storage_at e src @ r) = Some (File b)"
  note c = copy_tree_facts [OF wf dir ap nodir ok]
  from r c(4) [of r b] c(6) [of r]
  show "if excluded e (given exceptions) r
        then node_at fs' (storage_at e dest @ r) = node_at fs (storage_at e dest @ r)
        else node_at fs' (storage_at e dest @ r) = Some (File b)"
    by (simp add: is_file_iff)
next
  fix fs' r
  assume ok: "copy e fs src dest exceptions = (Inr (), fs')"
    and r: "r \<noteq> [] \<and> is_dir fs (storage_at e src @ r) \<and> \<not> excluded e (given exceptions) r"
  from copy_tree_facts(5) [OF wf dir ap nodir ok, of r] r
  show "is_dir fs' (storage_at e dest @ r)" by simp
next
  fix fs'
  assume ok: "copy e fs src dest exceptions = (Inr (), fs')"
  from copy_tree_facts(2) [OF wf dir ap nodir ok]
  show "is_dir fs' (storage_at e dest)" .
next
  fix fs' r
  assume ok: "copy e fs src dest exceptions = (Inr (), fs')"
  from copy_tree_facts(3) [OF wf dir ap nodir ok]
  show "node_at fs' (storage_at e src @ r) = node_at fs (storage_at e src @ r)" .
qed

text \<open>
  C10, as amended. Under the same conditions, let a directory of the source match a
  pattern and let a file below it not match any. Then \<open>copy\<close> into a destination with
  nothing below it, and no regular file at it or above it, returns normally. And whenever
  \<open>copy\<close> returns normally, the file is copied to its place below the destination, and
  the excluded directory is a directory there: only the entry itself was skipped.
\<close>

theorem copy_below_excluded_directory:
  assumes wf: "well_formed fs" and dir: "is_dir fs (storage_at e src)"
    and ap: "\<not> prefix (storage_at e src) (storage_at e dest)"
            "\<not> prefix (storage_at e dest) (storage_at e src)"
    and nodir: "\<forall>r. is_file fs (storage_at e src @ r) \<longrightarrow> \<not> is_dir fs (storage_at e dest @ r)"
    and plain: "plain_path (joinpath (path e) (Path src))"
               "plain_path (joinpath (path e) (Path dest))"
    and xd: "is_dir fs (storage_at e src @ rd)" "excluded e (given exceptions) rd"
    and below: "strict_prefix rd rf"
    and fl: "node_at fs (storage_at e src @ rf) = Some (File b)"
              "\<not> excluded e (given exceptions) rf"
  shows "((\<forall>q. q \<noteq> [] \<longrightarrow> node_at fs (storage_at e dest @ q) = None)
          \<and> \<not> is_file fs (storage_at e dest)
          \<and> \<not> list_ex (is_file fs) (parents (storage_at e dest))
          \<longrightarrow> (\<exists>fs'. copy e fs src dest exceptions = (Inr (), fs')))
       \<and> (\<forall>fs'. copy e fs src dest exceptions = (Inr (), fs') \<longrightarrow>
            node_at fs' (storage_at e dest @ rf) = Some (File b)
          \<and> is_dir fs' (storage_at e dest @ rd))"
proof (intro conjI allI impI)
  assume "(\<forall>q. q \<noteq> [] \<longrightarrow> node_at fs (storage_at e dest @ q) = None)
          \<and> \<not> is_file fs (storage_at e dest)
          \<and> \<not> list_ex (is_file fs) (parents (storage_at e dest))"
  with copy_fresh_succeeds [OF wf dir ap, of exceptions]
  show "\<exists>fs'. copy e fs src dest exceptions = (Inr (), fs')" by blast
next
  fix fs'
  assume ok: "copy e fs src dest exceptions = (Inr (), fs')"
  note c = copy_tree_facts [OF wf dir ap nodir ok]
  from below have rf: "rf \<noteq> []" by auto
  from c(4) [OF rf fl(2) fl(1)]
  show there: "node_at fs' (storage_at e dest @ rf) = Some (File b)" .
  then have ex: "node_at fs' (storage_at e dest @ rf) \<noteq> None" by simp
  from below have "prefix (storage_at e dest @ rd) (storage_at e dest @ rf)"
    and "storage_at e dest @ rd \<noteq> storage_at e dest @ rf"
    by (auto simp: strict_prefix_def)
  with well_formed_above [OF c(1) ex, of "storage_at e dest @ rd"]
  show "is_dir fs' (storage_at e dest @ rd)" by simp
qed

subsection \<open>copy: the examples\<close>

lemma example_tree_well_formed: "well_formed example_tree"
  by (rule well_formedI) code_simp

lemma example_tree_apart:
  "storage_at example_env ''cache'' = [''work'', ''storage'', ''cache'']"
  "storage_at example_env ''backup'' = [''work'', ''storage'', ''backup'']"
  "is_dir example_tree (storage_at example_env ''cache'')"
  "\<not> prefix (storage_at example_env ''cache'') (storage_at example_env ''backup'')"
  "\<not> prefix (storage_at example_env ''backup'') (storage_at example_env ''cache'')"
  by code_simp+

lemma example_tree_no_images:
  "\<forall>r. is_file example_tree (storage_at example_env ''cache'' @ r)
       \<longrightarrow> \<not> is_dir example_tree (storage_at example_env ''backup'' @ r)"
  unfolding example_tree_apart(1,2)
  by (simp add: is_dir_def node_at_def example_tree_def)

lemma example_tree_plain:
  "plain_path (joinpath (path example_env) (Path ''cache''))"
  "plain_path (joinpath (path example_env) (Path ''backup''))"
  by code_simp+

lemma example_tree_fresh:
  "\<forall>q. q \<noteq> [] \<longrightarrow> node_at example_tree (storage_at example_env ''backup'' @ q) = None"
  "\<not> is_file example_tree (storage_at example_env ''backup'')"
  "\<not> list_ex (is_file example_tree) (parents (storage_at example_env ''backup''))"
proof -
  show "\<forall>q. q \<noteq> [] \<longrightarrow> node_at example_tree (storage_at example_env ''backup'' @ q) = None"
    unfolding example_tree_apart(1,2)
    by (simp add: node_at_def example_tree_def)
  show "\<not> is_file example_tree (storage_at example_env ''backup'')"
    and "\<not> list_ex (is_file example_tree) (parents (storage_at example_env ''backup''))"
    by code_simp+
qed

text \<open>
  Without the condition on the images the claim fails: where the destination already
  holds a directory \<open>a.txt\<close>, the file \<open>a.txt\<close> of the source is copied into that
  directory, and is not at its relative path below the destination.
\<close>

theorem copy_directory_excluding_counterexample:
  "is_dir directory_at_image (storage_at example_env ''cache'')
   \<and> node_at directory_at_image (storage_at example_env ''cache'' @ [''a.txt'']) = Some (File ''alpha'')
   \<and> fst (copy example_env directory_at_image ''cache'' ''backup'' None) = Inr ()
   \<and> node_at (snd (copy example_env directory_at_image ''cache'' ''backup'' None))
        (storage_at example_env ''backup'' @ [''a.txt'']) = Some Dir
   \<and> node_at (snd (copy example_env directory_at_image ''cache'' ''backup'' None))
        (storage_at example_env ''backup'' @ [''a.txt'', ''a.txt'']) = Some (File ''alpha'')"
  by code_simp

theorem copy_directory_excluding_witness:
  "plain_path (joinpath (path example_env) (Path ''cache''))
   \<and> plain_path (joinpath (path example_env) (Path ''backup''))
   \<and> (\<exists>fs'. copy example_env example_tree ''cache'' ''backup'' (Some [''*.log'']) = (Inr (), fs'))
   \<and> copy example_env example_tree ''cache'' ''backup'' (Some [''*.log''])
     = (Inr (),
        example_tree @
        [([''work'', ''storage'', ''backup''], Dir),
         ([''work'', ''storage'', ''backup'', ''a.txt''], File ''alpha''),
         ([''work'', ''storage'', ''backup'', ''tmp''], Dir)])
   \<and> \<not> excluded example_env (given (Some [''*.log''])) [''a.txt'']
   \<and> \<not> excluded example_env (given (Some [''*.log''])) [''tmp'']
   \<and> excluded example_env (given (Some [''*.log''])) [''tmp'', ''b.log'']
   \<and> node_at (example_tree @
        [([''work'', ''storage'', ''backup''], Dir),
         ([''work'', ''storage'', ''backup'', ''a.txt''], File ''alpha''),
         ([''work'', ''storage'', ''backup'', ''tmp''], Dir)])
        (storage_at example_env ''backup'' @ [''a.txt'']) = Some (File ''alpha'')
   \<and> node_at (example_tree @
        [([''work'', ''storage'', ''backup''], Dir),
         ([''work'', ''storage'', ''backup'', ''a.txt''], File ''alpha''),
         ([''work'', ''storage'', ''backup'', ''tmp''], Dir)])
        (storage_at example_env ''backup'' @ [''tmp'', ''b.log''])
       = node_at example_tree (storage_at example_env ''backup'' @ [''tmp'', ''b.log''])
   \<and> is_dir (example_tree @
        [([''work'', ''storage'', ''backup''], Dir),
         ([''work'', ''storage'', ''backup'', ''a.txt''], File ''alpha''),
         ([''work'', ''storage'', ''backup'', ''tmp''], Dir)])
        (storage_at example_env ''backup'' @ [''tmp''])"
proof -
  let ?fs' = "example_tree @
        [([''work'', ''storage'', ''backup''], Dir),
         ([''work'', ''storage'', ''backup'', ''a.txt''], File ''alpha''),
         ([''work'', ''storage'', ''backup'', ''tmp''], Dir)]"
  have ok: "copy example_env example_tree ''cache'' ''backup'' (Some [''*.log'']) = (Inr (), ?fs')"
    by code_simp
  have x: "\<not> excluded example_env (given (Some [''*.log''])) [''a.txt'']"
    "\<not> excluded example_env (given (Some [''*.log''])) [''tmp'']"
    "excluded example_env (given (Some [''*.log''])) [''tmp'', ''b.log'']"
    by code_simp+
  have src: "node_at example_tree (storage_at example_env ''cache'' @ [''a.txt'']) = Some (File ''alpha'')"
    "node_at example_tree (storage_at example_env ''cache'' @ [''tmp'', ''b.log'']) = Some (File ''beta'')"
    "is_dir example_tree (storage_at example_env ''cache'' @ [''tmp''])"
    by code_simp+
  note t0 = copy_directory_excluding [OF example_tree_well_formed example_tree_apart(3,4,5)
      example_tree_no_images example_tree_plain, of "Some [''*.log'']"]
  from t0 example_tree_fresh
  have ret: "\<exists>fs'. copy example_env example_tree ''cache'' ''backup'' (Some [''*.log'']) = (Inr (), fs')"
    by blast
  note t = t0 [THEN conjunct2, rule_format, OF ok]
  from t src(1) x(1) have a: "node_at ?fs' (storage_at example_env ''backup'' @ [''a.txt''])
      = Some (File ''alpha'')"
    by (metis list.distinct(1))
  from t src(2) x(3) have b: "node_at ?fs' (storage_at example_env ''backup'' @ [''tmp'', ''b.log''])
      = node_at example_tree (storage_at example_env ''backup'' @ [''tmp'', ''b.log''])"
    by (metis list.distinct(1))
  from t src(3) x(2) have c: "is_dir ?fs' (storage_at example_env ''backup'' @ [''tmp''])"
    by (metis list.distinct(1))
  from example_tree_plain ret ok x a b c show ?thesis by simp
qed

text \<open>
  Nor is a file below an excluded directory copied to its place on every destination.
  Where the destination holds a regular file \<open>tmp\<close>, the parent of \<open>tmp/b.log\<close>
  cannot be made: \<open>copy\<close> raises \<open>FileExistsError\<close>, the file is not copied and
  the excluded directory is not recreated. Where it holds a directory \<open>tmp/b.log\<close>,
  \<open>copy\<close> returns normally and the file is inside that directory, so the excluded
  directory is not its parent.
\<close>

theorem copy_below_excluded_directory_counterexample:
  "is_dir file_at_directory (storage_at example_env ''cache'' @ [''tmp''])
   \<and> excluded example_env (given (Some [''tmp''])) [''tmp'']
   \<and> node_at file_at_directory (storage_at example_env ''cache'' @ [''tmp'', ''b.log''])
       = Some (File ''beta'')
   \<and> \<not> excluded example_env (given (Some [''tmp''])) [''tmp'', ''b.log'']
   \<and> fst (copy example_env file_at_directory ''cache'' ''backup'' (Some [''tmp''])) = Inl FileExistsError
   \<and> node_at (snd (copy example_env file_at_directory ''cache'' ''backup'' (Some [''tmp''])))
        (storage_at example_env ''backup'' @ [''tmp'', ''b.log'']) = None
   \<and> \<not> is_dir (snd (copy example_env file_at_directory ''cache'' ''backup'' (Some [''tmp''])))
        (storage_at example_env ''backup'' @ [''tmp''])
   \<and> fst (copy example_env directory_below_excluded ''cache'' ''backup'' (Some [''tmp''])) = Inr ()
   \<and> node_at (snd (copy example_env directory_below_excluded ''cache'' ''backup'' (Some [''tmp''])))
        (storage_at example_env ''backup'' @ [''tmp'', ''b.log'']) = Some Dir
   \<and> node_at (snd (copy example_env directory_below_excluded ''cache'' ''backup'' (Some [''tmp''])))
        (storage_at example_env ''backup'' @ [''tmp'', ''b.log'', ''b.log'']) = Some (File ''beta'')"
  by code_simp

theorem copy_below_excluded_directory_witness:
  "plain_path (joinpath (path example_env) (Path ''cache''))
   \<and> plain_path (joinpath (path example_env) (Path ''backup''))
   \<and> (\<exists>fs'. copy example_env example_tree ''cache'' ''backup'' (Some [''tmp'']) = (Inr (), fs'))
   \<and> copy example_env example_tree ''cache'' ''backup'' (Some [''tmp''])
     = (Inr (),
        example_tree @
        [([''work'', ''storage'', ''backup''], Dir),
         ([''work'', ''storage'', ''backup'', ''a.txt''], File ''alpha''),
         ([''work'', ''storage'', ''backup'', ''tmp''], Dir),
         ([''work'', ''storage'', ''backup'', ''tmp'', ''b.log''], File ''beta'')])
   \<and> is_dir example_tree (storage_at example_env ''cache'' @ [''tmp''])
   \<and> excluded example_env (given (Some [''tmp''])) [''tmp'']
   \<and> strict_prefix [''tmp''] [''tmp'', ''b.log'']
   \<and> node_at example_tree (storage_at example_env ''cache'' @ [''tmp'', ''b.log''])
       = Some (File ''beta'')
   \<and> \<not> excluded example_env (given (Some [''tmp''])) [''tmp'', ''b.log'']
   \<and> node_at (example_tree @
        [([''work'', ''storage'', ''backup''], Dir),
         ([''work'', ''storage'', ''backup'', ''a.txt''], File ''alpha''),
         ([''work'', ''storage'', ''backup'', ''tmp''], Dir),
         ([''work'', ''storage'', ''backup'', ''tmp'', ''b.log''], File ''beta'')])
        (storage_at example_env ''backup'' @ [''tmp'', ''b.log'']) = Some (File ''beta'')
   \<and> is_dir (example_tree @
        [([''work'', ''storage'', ''backup''], Dir),
         ([''work'', ''storage'', ''backup'', ''a.txt''], File ''alpha''),
         ([''work'', ''storage'', ''backup'', ''tmp''], Dir),
         ([''work'', ''storage'', ''backup'', ''tmp'', ''b.log''], File ''beta'')])
        (storage_at example_env ''backup'' @ [''tmp''])"
proof -
  let ?fs' = "example_tree @
        [([''work'', ''storage'', ''backup''], Dir),
         ([''work'', ''storage'', ''backup'', ''a.txt''], File ''alpha''),
         ([''work'', ''storage'', ''backup'', ''tmp''], Dir),
         ([''work'', ''storage'', ''backup'', ''tmp'', ''b.log''], File ''beta'')]"
  have ok: "copy example_env example_tree ''cache'' ''backup'' (Some [''tmp'']) = (Inr (), ?fs')"
    by code_simp
  have xd: "is_dir example_tree (storage_at example_env ''cache'' @ [''tmp''])"
    "excluded example_env (given (Some [''tmp''])) [''tmp'']"
    by code_simp+
  have below: "strict_prefix [''tmp''] [''tmp'', ''b.log'']"
    by (simp add: strict_prefix_def)
  have fl: "node_at example_tree (storage_at example_env ''cache'' @ [''tmp'', ''b.log''])
       = Some (File ''beta'')"
    "\<not> excluded example_env (given (Some [''tmp''])) [''tmp'', ''b.log'']"
    by code_simp+
  note t = copy_below_excluded_directory [OF example_tree_well_formed example_tree_apart(3,4,5)
      example_tree_no_images example_tree_plain xd below fl]
  from t example_tree_fresh
  have r: "\<exists>fs'. copy example_env example_tree ''cache'' ''backup'' (Some [''tmp'']) = (Inr (), fs')"
    by blast
  from t [THEN conjunct2, rule_format, OF ok] r example_tree_plain ok xd below fl
  show ?thesis by simp
qed

end
